theory Spec2Isabelle
  imports Complex_Main "HOL-Library.Log_Nat" "HOL-Library.Sublist" "HOL-Library.Multiset"
begin

section \<open>Python values\<close>

text \<open>
  The exceptions that the modelled functions can raise. A function that can raise returns
  \<open>py_error + 'a\<close>, with \<open>Inl\<close> for the exception.
\<close>

datatype py_error = ValueError | OverflowError | ZeroDivisionError | OSError

text \<open>
  Text is a list of 8-bit characters. Among the code points below 256 the class \<^verbatim>\<open>\d\<close>
  of Python's \<^verbatim>\<open>re\<close> holds exactly the ten ASCII digits, and \<^verbatim>\<open>int\<close> reads a run of
  them in base ten.
\<close>

definition is_digit :: "char \<Rightarrow> bool" where
  "is_digit c = (48 \<le> (of_char c :: nat) \<and> (of_char c :: nat) \<le> 57)"

definition digit_val :: "char \<Rightarrow> nat" where
  "digit_val c = of_char c - 48"

definition int_of_digits :: "string \<Rightarrow> nat" where
  "int_of_digits ds = foldl (\<lambda>a c. 10 * a + digit_val c) 0 ds"

text \<open>
  \<^verbatim>\<open>str.lower\<close> on the characters below 256: the capitals are A-Z (65-90) and the
  Latin-1 capitals (192-222 without 215), and the small letter is 32 further on, which
  for these code points is the same character with bit 5 set.
\<close>

definition is_upper :: "char \<Rightarrow> bool" where
  "is_upper c =
     (let n = (of_char c :: nat)
      in (65 \<le> n \<and> n \<le> 90) \<or> (192 \<le> n \<and> n \<le> 222 \<and> n \<noteq> 215))"

definition lower_char :: "char \<Rightarrow> char" where
  "lower_char c =
     (if is_upper c
      then (case c of Char b0 b1 b2 b3 b4 b5 b6 b7 \<Rightarrow> Char b0 b1 b2 b3 b4 True b6 b7)
      else c)"

definition lower :: "string \<Rightarrow> string" where
  "lower s = map lower_char s"

section \<open>Double precision arithmetic\<close>

text \<open>
  Python's \<^verbatim>\<open>float\<close> is IEEE 754 binary64: 53 significant bits, round to nearest with
  ties to even, least normal binade \<open>2 powi - 1022\<close>, and every result of magnitude
  \<open>2 ^ 1024\<close> or more after rounding is an overflow. A finite float is modelled by the
  rational it denotes. \<open>ilog2 x\<close> is the binade of a positive \<open>x\<close>, \<open>quantum x\<close> the
  spacing of the floats around \<open>x\<close>, and \<open>fl x\<close> the float nearest to \<open>x\<close>, with no
  bound on the exponent; the operations below compare it with \<open>2 ^ 1024\<close>.
\<close>

definition ilog2 :: "rat \<Rightarrow> int" where
  "ilog2 x =
     (let (p, q) = quotient_of x; k = bitlen p - bitlen q
      in if 2 powi k \<le> x then k else k - 1)"

definition round_half_even :: "rat \<Rightarrow> int" where
  "round_half_even y =
     (let f = \<lfloor>y\<rfloor>; r = y - of_int f
      in if r < 1 / 2 then f else if 1 / 2 < r then f + 1
         else if even f then f else f + 1)"

definition fexp :: "rat \<Rightarrow> int" where
  "fexp x = max (ilog2 \<bar>x\<bar>) (- 1022)"

definition quantum :: "rat \<Rightarrow> rat" where
  "quantum x = 2 powi (fexp x - 52)"

definition fl :: "rat \<Rightarrow> rat" where
  "fl x = (if x = 0 then 0 else of_int (round_half_even (x / quantum x)) * quantum x)"

text \<open>
  A float is finite or an infinity. The functions modelled here pass an infinity only to
  \<^verbatim>\<open>int\<close>, \<^verbatim>\<open>round\<close> and a division, which do not look at its sign, and they never
  produce a NaN.
\<close>

datatype pyfloat = Finite rat | Infinite

text \<open>The result of a float multiplication or division whose exact value is \<open>x\<close>.\<close>

definition to_float :: "rat \<Rightarrow> pyfloat" where
  "to_float x = (let y = fl x in if \<bar>y\<bar> < 2 ^ 1024 then Finite y else Infinite)"

text \<open>
  An \<^verbatim>\<open>int\<close> operand of a float operation is converted first, correctly rounded;
  \<^verbatim>\<open>OverflowError: int too large to convert to float\<close> when it rounds out of range.
\<close>

definition float_of_int :: "int \<Rightarrow> py_error + rat" where
  "float_of_int n =
     (let y = fl (of_int n) in if \<bar>y\<bar> < 2 ^ 1024 then Inr y else Inl OverflowError)"

definition float_mul :: "rat \<Rightarrow> rat \<Rightarrow> pyfloat" where
  "float_mul a b = to_float (a * b)"

definition float_div :: "rat \<Rightarrow> rat \<Rightarrow> py_error + pyfloat" where
  "float_div a b = (if b = 0 then Inl ZeroDivisionError else Inr (to_float (a / b)))"

text \<open>\<^verbatim>\<open>int(x)\<close> truncates towards zero; \<^verbatim>\<open>round(x)\<close> rounds half to even.\<close>

definition int_of_float :: "pyfloat \<Rightarrow> py_error + int" where
  "int_of_float x =
     (case x of
        Finite y \<Rightarrow> Inr (if 0 \<le> y then \<lfloor>y\<rfloor> else \<lceil>y\<rceil>)
      | Infinite \<Rightarrow> Inl OverflowError)"

definition round_float :: "pyfloat \<Rightarrow> py_error + int" where
  "round_float x =
     (case x of
        Finite y \<Rightarrow> Inr (round_half_even y)
      | Infinite \<Rightarrow> Inl OverflowError)"

section \<open>Dates and times\<close>

text \<open>
  A naive \<^verbatim>\<open>datetime\<close> holds its seven fields. The constructor accepts exactly the
  field values of \<open>valid_datetime\<close>; datetimes compare field by field, in this order.
\<close>

record datetime =
  year :: nat
  month :: nat
  day :: nat
  hour :: nat
  minute :: nat
  second :: nat
  microsecond :: nat

definition is_leap :: "nat \<Rightarrow> bool" where
  "is_leap y = (y mod 4 = 0 \<and> (y mod 100 \<noteq> 0 \<or> y mod 400 = 0))"

definition days_in_month :: "nat \<Rightarrow> nat \<Rightarrow> nat" where
  "days_in_month y m =
     (if m = 2 then (if is_leap y then 29 else 28)
      else if m = 4 \<or> m = 6 \<or> m = 9 \<or> m = 11 then 30 else 31)"

definition valid_datetime :: "datetime \<Rightarrow> bool" where
  "valid_datetime t =
     (1 \<le> year t \<and> year t \<le> 9999 \<and> 1 \<le> month t \<and> month t \<le> 12 \<and>
      1 \<le> day t \<and> day t \<le> days_in_month (year t) (month t) \<and>
      hour t \<le> 23 \<and> minute t \<le> 59 \<and> second t \<le> 59 \<and> microsecond t \<le> 999999)"

fun lex_le :: "nat list \<Rightarrow> nat list \<Rightarrow> bool" where
  "lex_le [] ys = True"
| "lex_le (x # xs) [] = False"
| "lex_le (x # xs) (y # ys) = (x < y \<or> (x = y \<and> lex_le xs ys))"

definition datetime_le :: "datetime \<Rightarrow> datetime \<Rightarrow> bool" where
  "datetime_le a b =
     lex_le [year a, month a, day a, hour a, minute a, second a, microsecond a]
            [year b, month b, day b, hour b, minute b, second b, microsecond b]"

definition same_day :: "datetime \<Rightarrow> datetime \<Rightarrow> bool" where
  "same_day a b = (year a = year b \<and> month a = month b \<and> day a = day b)"

text \<open>The proleptic Gregorian ordinal of a date (\<^verbatim>\<open>toordinal\<close>).\<close>

definition days_before_year :: "nat \<Rightarrow> int" where
  "days_before_year y =
     (let y1 = int y - 1 in y1 * 365 + y1 div 4 - y1 div 100 + y1 div 400)"

definition days_before_month :: "nat \<Rightarrow> nat \<Rightarrow> int" where
  "days_before_month y m = int (sum_list (map (days_in_month y) [1..<m]))"

definition toordinal :: "datetime \<Rightarrow> int" where
  "toordinal t = days_before_year (year t) + days_before_month (year t) (month t) + int (day t)"

text \<open>
  A \<^verbatim>\<open>timedelta\<close> is kept normalised: seconds in \<open>0..86399\<close>, microseconds in
  \<open>0..999999\<close>. \<^verbatim>\<open>total_seconds\<close> is the true division of the whole number of
  microseconds by \<open>10 ^ 6\<close>, correctly rounded.
\<close>

record timedelta =
  days :: int
  seconds :: int
  microseconds :: int

definition make_timedelta :: "int \<Rightarrow> int \<Rightarrow> int \<Rightarrow> timedelta" where
  "make_timedelta d s us =
     (let t = (d * 86400 + s) * 1000000 + us
      in \<lparr>days = t div 86400000000,
          seconds = t mod 86400000000 div 1000000,
          microseconds = t mod 1000000\<rparr>)"

definition datetime_sub :: "datetime \<Rightarrow> datetime \<Rightarrow> timedelta" where
  "datetime_sub a b =
     make_timedelta (toordinal a - toordinal b)
       ((int (second a) + int (minute a) * 60 + int (hour a) * 3600) -
        (int (second b) + int (minute b) * 60 + int (hour b) * 3600))
       (int (microsecond a) - int (microsecond b))"

definition total_seconds :: "timedelta \<Rightarrow> rat" where
  "total_seconds td =
     fl (of_int ((days td * 86400 + seconds td) * 10 ^ 6 + microseconds td) / 10 ^ 6)"

text \<open>\<^verbatim>\<open>ts.strftime('%y-%m-%d')\<close>: year without century, month and day, two digits each.\<close>

definition digit_char :: "nat \<Rightarrow> char" where
  "digit_char n = ''0123456789'' ! (n mod 10)"

definition two_digits :: "nat \<Rightarrow> string" where
  "two_digits n = [digit_char (n div 10), digit_char n]"

definition strftime_ymd :: "datetime \<Rightarrow> string" where
  "strftime_ymd t =
     two_digits (year t mod 100) @ ''-'' @ two_digits (month t) @ ''-'' @ two_digits (day t)"

section \<open>Sidecar parser\<close>

text \<open>
  The functions of the parser take the text that \<^verbatim>\<open>_read_text\<close> returns for the sidecar
  file. The timestamp pattern
  \<^verbatim>\<open>(\d{4}-\d{2}-\d{2} \d{2}:\d{2}:\d{2}\.\d{3})\<close> is a sequence of 23 one-character
  items, so \<^verbatim>\<open>re.search\<close> returns the leftmost position where all of them match.
\<close>

datatype pat_item = Dig | Lit char

fun matches_at :: "pat_item list \<Rightarrow> string \<Rightarrow> bool" where
  "matches_at [] s = True"
| "matches_at (p # ps) [] = False"
| "matches_at (Dig # ps) (c # cs) = (is_digit c \<and> matches_at ps cs)"
| "matches_at (Lit a # ps) (c # cs) = (c = a \<and> matches_at ps cs)"

fun re_search :: "pat_item list \<Rightarrow> string \<Rightarrow> string option" where
  "re_search p [] = (if matches_at p [] then Some [] else None)"
| "re_search p (c # cs) =
     (if matches_at p (c # cs) then Some (take (length p) (c # cs)) else re_search p cs)"

definition timestamp_pattern :: "pat_item list" where
  "timestamp_pattern =
     [Dig, Dig, Dig, Dig, Lit CHR ''-'', Dig, Dig, Lit CHR ''-'', Dig, Dig, Lit CHR '' '',
      Dig, Dig, Lit CHR '':'', Dig, Dig, Lit CHR '':'', Dig, Dig, Lit CHR ''.'',
      Dig, Dig, Dig]"

text \<open>
  \<^verbatim>\<open>datetime.strptime(s, "%Y-%m-%d %H:%M:%S.%f")\<close> on a string of the shape above: the
  fields are read from their columns, three digits of \<^verbatim>\<open>%f\<close> are milliseconds, and
  \<^verbatim>\<open>ValueError\<close> is raised when a field is out of range (month 13, day 30 of
  February, hour 24, second 60, year 0).
\<close>

definition strptime :: "string \<Rightarrow> py_error + datetime" where
  "strptime s =
     (let t = \<lparr>year = int_of_digits (take 4 s),
               month = int_of_digits (take 2 (drop 5 s)),
               day = int_of_digits (take 2 (drop 8 s)),
               hour = int_of_digits (take 2 (drop 11 s)),
               minute = int_of_digits (take 2 (drop 14 s)),
               second = int_of_digits (take 2 (drop 17 s)),
               microsecond = int_of_digits (take 3 (drop 20 s)) * 1000\<rparr>
      in if valid_datetime t then Inr t else Inl ValueError)"

definition parse_srt_for_timestamp :: "string \<Rightarrow> py_error + datetime option" where
  "parse_srt_for_timestamp content =
     (case re_search timestamp_pattern content of
        None \<Rightarrow> Inr None
      | Some m \<Rightarrow> (case strptime m of Inl e \<Rightarrow> Inl e | Inr t \<Rightarrow> Inr (Some t)))"

text \<open>
  \<^verbatim>\<open>DiffTime: (\d+)ms\<close> and \<^verbatim>\<open>FrameCnt: (\d+)\<close> at the head of a text. The digits are
  taken greedily; giving one back leaves a digit where \<^verbatim>\<open>ms\<close> must start, so the match
  succeeds exactly when the whole run of digits is followed by \<^verbatim>\<open>ms\<close>. The result is
  the group and the text after the match.
\<close>

definition match_marker :: "string \<Rightarrow> string \<Rightarrow> string \<Rightarrow> (string \<times> string) option" where
  "match_marker before after s =
     (if prefix before s then
        (let r = drop (length before) s;
             ds = takeWhile is_digit r;
             rest = dropWhile is_digit r
         in if ds \<noteq> [] \<and> prefix after rest then Some (ds, drop (length after) rest)
            else None)
      else None)"

lemma match_marker_shorter:
  assumes "match_marker before after (c # cs) = Some (g, rest)"
  shows "length rest < length (c # cs)"
proof -
  let ?r = "drop (length before) (c # cs)"
  from assms have ne: "takeWhile is_digit ?r \<noteq> []"
    and rest: "rest = drop (length after) (dropWhile is_digit ?r)"
    by (auto simp: match_marker_def Let_def split: if_splits)
  have "length (dropWhile is_digit ?r) <
          length (takeWhile is_digit ?r) + length (dropWhile is_digit ?r)"
    using ne by simp
  also have "\<dots> = length (takeWhile is_digit ?r @ dropWhile is_digit ?r)"
    by (simp only: length_append)
  also have "\<dots> = length ?r" by (simp only: takeWhile_dropWhile_id)
  also have "\<dots> \<le> length (c # cs)" by simp
  finally have "length (dropWhile is_digit ?r) < length (c # cs)" .
  then show ?thesis by (simp add: rest)
qed

text \<open>\<^verbatim>\<open>re.findall\<close>: the groups of the matches, left to right, not overlapping.\<close>

function findall :: "string \<Rightarrow> string \<Rightarrow> string \<Rightarrow> string list" where
  "findall before after [] = []"
| "findall before after (c # cs) =
     (case match_marker before after (c # cs) of
        Some (g, rest) \<Rightarrow> g # findall before after rest
      | None \<Rightarrow> findall before after cs)"
  by pat_completeness auto
termination
  by (relation "measure (\<lambda>(before, after, s). length s)")
     (auto dest: match_marker_shorter)

definition get_clip_duration_frames :: "string \<Rightarrow> int \<Rightarrow> py_error + int option" where
  "get_clip_duration_frames content fps =
     (let diff_times = findall ''DiffTime: '' ''ms'' content
      in if diff_times \<noteq> [] then
           (let total_ms = sum_list (map (\<lambda>x. int (int_of_digits x)) diff_times)
            in case float_of_int fps of Inl e \<Rightarrow> Inl e | Inr f \<Rightarrow>
               (case float_div 1000 f of Inl e \<Rightarrow> Inl e | Inr frame_ms \<Rightarrow>
               (case float_of_int total_ms of Inl e \<Rightarrow> Inl e | Inr t \<Rightarrow>
               (case frame_ms of
                  Infinite \<Rightarrow> Inr (Some 0)
                | Finite fm \<Rightarrow>
                    (case float_div t fm of Inl e \<Rightarrow> Inl e | Inr q \<Rightarrow>
                    (case int_of_float q of Inl e \<Rightarrow> Inl e | Inr n \<Rightarrow> Inr (Some n)))))))
         else
           (let entries = findall ''FrameCnt: '' '''' content
            in if entries \<noteq> [] then Inr (Some (int (length entries))) else Inr None))"

section \<open>Frame aligner\<close>

definition day_start :: "datetime \<Rightarrow> datetime" where
  "day_start ts = ts\<lparr>hour := 0, minute := 0, second := 0, microsecond := 0\<rparr>"

definition compute_record_frame :: "datetime \<Rightarrow> int \<Rightarrow> py_error + int" where
  "compute_record_frame ts fps =
     (let delta = datetime_sub ts (day_start ts)
      in case float_of_int fps of
           Inl e \<Rightarrow> Inl e
         | Inr f \<Rightarrow> round_float (float_mul (total_seconds delta) f))"

text \<open>The microseconds since midnight that a timestamp shows.\<close>

definition day_microseconds :: "datetime \<Rightarrow> int" where
  "day_microseconds ts =
     (int (hour ts) * 3600 + int (minute ts) * 60 + int (second ts)) * 10 ^ 6 +
     int (microsecond ts)"

section \<open>Filesystem scanner\<close>

text \<open>
  A path is the list of its components; \<^verbatim>\<open>p.name\<close> is the last one. A directory tree
  gives, for every entry, its name, whether \<^verbatim>\<open>is_file\<close> holds of it and, for a
  directory, its entries.
\<close>

type_synonym path = "string list"

definition path_name :: "path \<Rightarrow> string" where
  "path_name p = (if p = [] then [] else last p)"

definition norm_ext :: "string \<Rightarrow> string" where
  "norm_ext nm =
     (let l = lower nm
      in if suffix ''.mp4'' l \<or> suffix ''.mov'' l then ''video''
         else if suffix ''.srt'' l then ''srt'' else [])"

datatype fs_node = File string | Dir string "fs_node list"

text \<open>
  \<^verbatim>\<open>folder.rglob('*')\<close> yields every entry below the folder, files and directories, at
  any depth; \<^verbatim>\<open>pathlib\<close> does not leave out the entries whose name starts with a dot.
  It walks the directories parent first, and for each directory it comes to it yields
  all the entries of that directory before it goes down into the first of its
  subdirectories. Within a directory the entries come in the file system's order, which
  is the order of the list. A symbolic link to a directory is not followed: it is an
  entry that is no file and has no entries.
\<close>

fun entry :: "path \<Rightarrow> fs_node \<Rightarrow> path \<times> bool" where
  "entry folder (File n) = (folder @ [n], True)"
| "entry folder (Dir n cs) = (folder @ [n], False)"

fun rglob_below :: "path \<Rightarrow> fs_node \<Rightarrow> (path \<times> bool) list" where
  "rglob_below folder (File n) = []"
| "rglob_below folder (Dir n cs) =
     map (entry (folder @ [n])) cs @ concat (map (rglob_below (folder @ [n])) cs)"

definition rglob :: "path \<Rightarrow> fs_node list \<Rightarrow> (path \<times> bool) list" where
  "rglob folder entries =
     map (entry folder) entries @ concat (map (rglob_below folder) entries)"

definition scan_videos :: "path \<Rightarrow> fs_node list \<Rightarrow> path list" where
  "scan_videos cam_folder entries =
     map fst
       (filter
          (\<lambda>(p, is_file).
             \<not> (prefix ''._'' (path_name p) \<or> prefix ''.'' (path_name p)) \<and>
             is_file \<and> norm_ext (path_name p) = ''video'')
          (rglob cam_folder entries))"

text \<open>
  The regular files below a folder, described on their own: a file entry, or a regular
  file of an entry of a directory, whatever the directory is called.
\<close>

fun files_in :: "fs_node \<Rightarrow> path list" where
  "files_in (File n) = [[n]]"
| "files_in (Dir n cs) = map ((#) n) (concat (map files_in cs))"

definition regular_files_under :: "path \<Rightarrow> fs_node list \<Rightarrow> path list" where
  "regular_files_under folder entries = map ((@) folder) (concat (map files_in entries))"

section \<open>Grouping and planning\<close>

text \<open>
  The loop of \<^verbatim>\<open>main\<close> that buckets the videos of a camera folder by day. The file
  system is read through two functions: \<open>find_srt\<close> is what \<^verbatim>\<open>find_srt_for_video\<close>
  returns for a video, \<open>read_text\<close> what \<^verbatim>\<open>_read_text\<close> returns for a sidecar. A
  video without sidecar or without timestamp is skipped (the loop prints a line for it);
  an exception of the parser leaves the loop. The dictionary is a map: the code reads
  it through \<^verbatim>\<open>sorted(group_by_date.items())\<close> only.
\<close>

type_synonym clip = "path \<times> path \<times> datetime"

definition setdefault_append :: "(string \<rightharpoonup> 'a list) \<Rightarrow> string \<Rightarrow> 'a \<Rightarrow> (string \<rightharpoonup> 'a list)" where
  "setdefault_append g k x = g(k \<mapsto> (case g k of None \<Rightarrow> [] | Some xs \<Rightarrow> xs) @ [x])"

fun group_by_date ::
  "(path \<Rightarrow> path option) \<Rightarrow> (path \<Rightarrow> string) \<Rightarrow> path list \<Rightarrow>
   (string \<rightharpoonup> clip list) \<Rightarrow> py_error + (string \<rightharpoonup> clip list)" where
  "group_by_date find_srt read_text [] g = Inr g"
| "group_by_date find_srt read_text (v # vs) g =
     (case find_srt v of
        None \<Rightarrow> group_by_date find_srt read_text vs g
      | Some srt \<Rightarrow>
          (case parse_srt_for_timestamp (read_text srt) of
             Inl e \<Rightarrow> Inl e
           | Inr None \<Rightarrow> group_by_date find_srt read_text vs g
           | Inr (Some ts) \<Rightarrow>
               group_by_date find_srt read_text vs
                 (setdefault_append g (strftime_ymd ts) (v, srt, ts))))"

text \<open>
  The clips that take part in the grouping, described on their own: the videos that
  have a sidecar whose text holds a timestamp, in discovery order.
\<close>

fun dated_clips :: "(path \<Rightarrow> path option) \<Rightarrow> (path \<Rightarrow> string) \<Rightarrow> path list \<Rightarrow> clip list" where
  "dated_clips find_srt read_text [] = []"
| "dated_clips find_srt read_text (v # vs) =
     (case find_srt v of
        None \<Rightarrow> dated_clips find_srt read_text vs
      | Some srt \<Rightarrow>
          (case parse_srt_for_timestamp (read_text srt) of
             Inr (Some ts) \<Rightarrow> (v, srt, ts) # dated_clips find_srt read_text vs
           | _ \<Rightarrow> dated_clips find_srt read_text vs))"

text \<open>The clips of one day among them.\<close>

definition day_clips :: "string \<Rightarrow> clip list \<Rightarrow> clip list" where
  "day_clips k cs = filter (\<lambda>(v, srt, ts). strftime_ymd ts = k) cs"

text \<open>
  The value of \<^verbatim>\<open>item.GetClipProperty('Resolution')\<close>: a string, a dictionary (of which
  the code reads the key \<^verbatim>\<open>'Resolution'\<close>), another value, or an exception, which the
  loop catches.
\<close>

datatype pyval = PStr string | POther

datatype clip_prop = ResStr string | ResDict "string \<rightharpoonup> pyval" | ResOther | ResRaises

text \<open>
  \<^verbatim>\<open>re.search(r"(\d{3,5})x(\d{3,5})", s)\<close>. At one position the first group tries five,
  four and three digits in this order and needs an \<^verbatim>\<open>x\<close> after them; the second group
  then takes the longest of five, four or three digits. The search returns the match
  at the leftmost position that has one.
\<close>

definition digits_then :: "nat \<Rightarrow> string \<Rightarrow> string option" where
  "digits_then n s =
     (if n \<le> length s \<and> list_all is_digit (take n s) then Some (drop n s) else None)"

definition match_height :: "string \<Rightarrow> nat option" where
  "match_height s =
     (if digits_then 5 s \<noteq> None then Some (int_of_digits (take 5 s))
      else if digits_then 4 s \<noteq> None then Some (int_of_digits (take 4 s))
      else if digits_then 3 s \<noteq> None then Some (int_of_digits (take 3 s))
      else None)"

definition match_width :: "nat \<Rightarrow> string \<Rightarrow> (nat \<times> nat) option" where
  "match_width n s =
     (case digits_then n s of
        Some (c # r) \<Rightarrow>
          (if c = CHR ''x'' then map_option (Pair (int_of_digits (take n s))) (match_height r)
           else None)
      | _ \<Rightarrow> None)"

definition match_resolution :: "string \<Rightarrow> (nat \<times> nat) option" where
  "match_resolution s =
     (case match_width 5 s of Some r \<Rightarrow> Some r | None \<Rightarrow>
     (case match_width 4 s of Some r \<Rightarrow> Some r | None \<Rightarrow> match_width 3 s))"

fun search_resolution :: "string \<Rightarrow> (nat \<times> nat) option" where
  "search_resolution [] = None"
| "search_resolution (c # cs) =
     (case match_resolution (c # cs) of
        Some r \<Rightarrow> Some r
      | None \<Rightarrow> search_resolution cs)"

text \<open>The resolution that a clip property holds, if there is one the code can read.\<close>

definition parsed_resolution :: "clip_prop \<Rightarrow> (nat \<times> nat) option" where
  "parsed_resolution res =
     (case res of
        ResStr s \<Rightarrow> search_resolution s
      | ResDict d \<Rightarrow>
          (case d ''Resolution'' of Some (PStr val) \<Rightarrow> search_resolution val | _ \<Rightarrow> None)
      | _ \<Rightarrow> None)"

text \<open>Width times height, which the loop compares.\<close>

definition area :: "nat \<times> nat \<Rightarrow> nat" where
  "area p = fst p * snd p"

text \<open>One pass of the loop body over \<^verbatim>\<open>max_w, max_h\<close>.\<close>

definition update_resolution :: "clip_prop \<Rightarrow> nat \<times> nat \<Rightarrow> nat \<times> nat" where
  "update_resolution res m =
     (case parsed_resolution res of
        Some (w, h) \<Rightarrow> if w * h > fst m * snd m then (w, h) else m
      | None \<Rightarrow> m)"

text \<open>
  The entry built for one imported clip (the dictionary \<^verbatim>\<open>info\<close>); \<open>trim\<close> holds
  \<^verbatim>\<open>startFrame\<close> and \<^verbatim>\<open>endFrame\<close> when a duration was found.
\<close>

record 'h placement =
  mediaPoolItem :: 'h
  trackIndex :: nat
  recordFrame :: int
  trim :: "(int \<times> int) option"

text \<open>
  The loop over the imported clips of one day: it updates the largest resolution and
  appends the entry of the clip. An exception of \<^verbatim>\<open>compute_record_frame\<close> or of
  \<^verbatim>\<open>get_clip_duration_frames\<close> leaves the loop.
\<close>

fun build_clip_infos ::
  "('h \<Rightarrow> clip_prop) \<Rightarrow> (path \<Rightarrow> string) \<Rightarrow> int \<Rightarrow> ('h \<times> clip) list \<Rightarrow>
   (nat \<times> nat) \<times> 'h placement list \<Rightarrow> py_error + ((nat \<times> nat) \<times> 'h placement list)" where
  "build_clip_infos get_prop read_text fps [] acc = Inr acc"
| "build_clip_infos get_prop read_text fps ((item, v, srt, ts) # rest) (m, clip_infos) =
     (let m' = update_resolution (get_prop item) m
      in case compute_record_frame ts fps of
           Inl e \<Rightarrow> Inl e
         | Inr record_frame \<Rightarrow>
             (case get_clip_duration_frames (read_text srt) fps of
                Inl e \<Rightarrow> Inl e
              | Inr duration \<Rightarrow>
                  build_clip_infos get_prop read_text fps rest
                    (m', clip_infos @
                       [\<lparr>mediaPoolItem = item, trackIndex = 1, recordFrame = record_frame,
                         trim = map_option (Pair 0) duration\<rparr>])))"

text \<open>
  \<^verbatim>\<open>clip_infos.sort(key=...)\<close> is a stable sort, and a stable sort has one result, the
  one of \<open>sort_key\<close>. The loop after it hands the entries to \<^verbatim>\<open>AppendToTimeline\<close> one
  by one and goes on after a failure; it returns the entries handed over and those the
  host refused.
\<close>

fun append_loop ::
  "('h placement \<Rightarrow> bool) \<Rightarrow> 'h placement list \<Rightarrow>
   'h placement list \<times> 'h placement list \<Rightarrow> 'h placement list \<times> 'h placement list" where
  "append_loop append_ok [] acc = acc"
| "append_loop append_ok (info # rest) (handed, refused) =
     append_loop append_ok rest
       (handed @ [info], if append_ok info then refused else refused @ [info])"

definition place_clips ::
  "('h \<Rightarrow> clip_prop) \<Rightarrow> (path \<Rightarrow> string) \<Rightarrow> ('h placement \<Rightarrow> bool) \<Rightarrow> int \<Rightarrow>
   ('h \<times> clip) list \<Rightarrow> py_error + ((nat \<times> nat) \<times> 'h placement list \<times> 'h placement list)" where
  "place_clips get_prop read_text append_ok fps imported_items =
     (case build_clip_infos get_prop read_text fps imported_items ((0, 0), []) of
        Inl e \<Rightarrow> Inl e
      | Inr (m, clip_infos) \<Rightarrow>
          Inr (m, append_loop append_ok (sort_key recordFrame clip_infos) ([], [])))"

section \<open>Start of the run\<close>










section \<open>Export file names\<close>

text \<open>
  \<^verbatim>\<open>safe_filename\<close> is \<^verbatim>\<open>re.sub(r"[\\/:*?\"<>|]", "_", name)\<close>: the pattern is a
  character class with no repetition, so every single occurrence of one of the nine
  characters is replaced by one underscore, and every other character is kept.
\<close>

definition forbidden_chars :: "char list" where
  "forbidden_chars =
     [CHR 0x5C, CHR ''/'', CHR '':'', CHR ''*'', CHR ''?'', CHR 0x22,
      CHR ''<'', CHR ''>'', CHR ''|'']"

definition safe_filename :: "string \<Rightarrow> string" where
  "safe_filename name =
     map (\<lambda>c. if c \<in> set forbidden_chars then CHR ''_'' else c) name"

text \<open>The name of the exported file in \<^verbatim>\<open>main\<close>: \<^verbatim>\<open>f"{safe_filename(tl.GetName())}.xml"\<close>.\<close>

definition xml_name :: "string \<Rightarrow> string" where
  "xml_name timeline_name = safe_filename timeline_name @ ''.xml''"

section \<open>Facts about rounding\<close>

lemma rhe_bounds: "\<lfloor>y\<rfloor> \<le> round_half_even y \<and> round_half_even y \<le> \<lfloor>y\<rfloor> + 1"
  by (simp add: round_half_even_def Let_def)

lemma rhe_of_int [simp]: "round_half_even (of_int n) = n"
  by (simp add: round_half_even_def Let_def)

lemma rhe_mono: assumes "x \<le> y" shows "round_half_even x \<le> round_half_even y"
proof (cases "\<lfloor>x\<rfloor> = \<lfloor>y\<rfloor>")
  case True
  then show ?thesis using assms by (auto simp: round_half_even_def Let_def)
next
  case False
  then have "\<lfloor>x\<rfloor> + 1 \<le> \<lfloor>y\<rfloor>" using floor_mono [OF assms] by linarith
  then show ?thesis using rhe_bounds [of x] rhe_bounds [of y] by linarith
qed

lemma bitlen_pos_bounds:
  assumes "0 < (p::int)"
  shows "(2::rat) powi (bitlen p - 1) \<le> of_int p" "of_int p < (2::rat) powi (bitlen p)"
proof -
  have b: "2 ^ nat (bitlen p - 1) \<le> p" "p < 2 ^ nat (bitlen p)"
    using bitlen_bounds [OF assms] by auto
  have ge1: "1 \<le> bitlen p" using assms by (simp add: bitlen_alt_def)
  have "(of_int (2 ^ nat (bitlen p - 1)) :: rat) \<le> of_int p" using b(1) by (simp only: of_int_le_iff)
  then show "(2::rat) powi (bitlen p - 1) \<le> of_int p"
    using ge1 by (simp add: power_int_def)
  have "(of_int p :: rat) < of_int (2 ^ nat (bitlen p))" using b(2) by (simp only: of_int_less_iff)
  then show "of_int p < (2::rat) powi (bitlen p)"
    using ge1 by (simp add: power_int_def)
qed

lemma ilog2_bounds:
  assumes "0 < x"
  shows "2 powi (ilog2 x) \<le> x" "x < 2 powi (ilog2 x + 1)"
proof -
  obtain p q where pq: "quotient_of x = (p, q)" by (cases "quotient_of x")
  then have q: "0 < q" and x: "x = of_int p / of_int q"
    using quotient_of_denom_pos quotient_of_div by blast+
  have p: "0 < p" using assms q x by (simp add: zero_less_divide_iff)
  define k where "k = bitlen p - bitlen q"
  have up: "x < 2 powi (k + 1)"
  proof -
    have "of_int p < (2::rat) powi (bitlen p)" by (rule bitlen_pos_bounds [OF p])
    also have "\<dots> = 2 powi (k + 1) * 2 powi (bitlen q - 1)"
      by (simp add: k_def flip: power_int_add)
    also have "\<dots> \<le> 2 powi (k + 1) * of_int q"
      using bitlen_pos_bounds(1) [OF q] by (intro mult_left_mono) simp_all
    finally show ?thesis using q by (simp add: x pos_divide_less_eq)
  qed
  have lo: "2 powi (k - 1) \<le> x"
  proof -
    have "(2::rat) powi (k - 1) * of_int q \<le> 2 powi (k - 1) * 2 powi (bitlen q)"
      using bitlen_pos_bounds(2) [OF q] by (intro mult_left_mono) simp_all
    also have "\<dots> = 2 powi (bitlen p - 1)"
      by (simp add: k_def flip: power_int_add)
    also have "\<dots> \<le> of_int p" by (rule bitlen_pos_bounds [OF p])
    finally show ?thesis using q by (simp add: x pos_le_divide_eq)
  qed
  have il: "ilog2 x = (if 2 powi k \<le> x then k else k - 1)"
    by (simp add: ilog2_def pq k_def Let_def)
  show "2 powi (ilog2 x) \<le> x" using lo by (simp add: il)
  show "x < 2 powi (ilog2 x + 1)" using up by (auto simp: il)
qed

lemma pow2_less_cancel:
  assumes "(2::rat) powi a < 2 powi b" shows "a < b"
proof (rule ccontr)
  assume "\<not> a < b"
  then have "(2::rat) powi b \<le> 2 powi a" by (intro power_int_increasing) simp_all
  with assms show False by simp
qed

lemma ilog2_unique:
  assumes "2 powi e \<le> x" "x < 2 powi (e + 1)"
  shows "ilog2 x = e"
proof -
  have "(0::rat) < 2 powi e" by simp
  with assms(1) have x: "0 < x" by linarith
  note b = ilog2_bounds [OF x]
  have "2 powi e < (2::rat) powi (ilog2 x + 1)" using assms(1) b(2) by simp
  then have 1: "e < ilog2 x + 1" by (rule pow2_less_cancel)
  have "2 powi (ilog2 x) < (2::rat) powi (e + 1)" using assms(2) b(1) by simp
  then have 2: "ilog2 x < e + 1" by (rule pow2_less_cancel)
  from 1 2 show ?thesis by simp
qed

lemma fexp_upper: assumes "0 < x" shows "x < 2 powi (fexp x + 1)"
proof -
  have "x < 2 powi (ilog2 x + 1)" by (rule ilog2_bounds [OF assms])
  also have "\<dots> \<le> 2 powi (fexp x + 1)"
    using assms by (intro power_int_increasing) (simp_all add: fexp_def)
  finally show ?thesis .
qed

lemma fexp_lower: assumes "0 < x" "- 1022 < fexp x" shows "2 powi (fexp x) \<le> x"
proof -
  have "fexp x = ilog2 x" using assms by (simp add: fexp_def max_def split: if_splits)
  then show ?thesis using ilog2_bounds(1) [OF assms(1)] by simp
qed

lemma fl_pos: assumes "0 < x" shows "fl x = of_int (round_half_even (x / 2 powi (fexp x - 52))) * 2 powi (fexp x - 52)"
  using assms by (simp add: fl_def quantum_def)

lemma fl_le_pow: assumes "0 < x" shows "fl x \<le> 2 powi (fexp x + 1)"
proof -
  let ?q = "(2::rat) powi (fexp x - 52)"
  have q: "0 < ?q" by simp
  have "x / ?q \<le> 2 powi (fexp x + 1) / ?q"
    using fexp_upper [OF assms] by (intro divide_right_mono) simp_all
  also have "\<dots> = 2 powi 53" by (simp flip: power_int_diff)
  also have "\<dots> = of_int (2 ^ 53)" by simp
  finally have "round_half_even (x / ?q) \<le> round_half_even (of_int (2 ^ 53))" by (rule rhe_mono)
  then have "round_half_even (x / ?q) \<le> 2 ^ 53" by (simp only: rhe_of_int)
  then have "(of_int (round_half_even (x / ?q)) :: rat) \<le> of_int (2 ^ 53)" by (simp only: of_int_le_iff)
  then have "of_int (round_half_even (x / ?q)) * ?q \<le> of_int (2 ^ 53) * ?q"
    using q by (simp only: mult_le_cancel_right_pos)
  also have "of_int (2 ^ 53) * ?q = 2 powi 53 * ?q" by simp
  also have "\<dots> = 2 powi (fexp x + 1)"
    using power_int_add [of "2::rat" 53 "fexp x - 52"] by (simp add: add.commute)
  finally show ?thesis by (simp only: fl_pos [OF assms])
qed

lemma fl_ge_pow: assumes "0 < x" "- 1022 < fexp x" shows "2 powi (fexp x) \<le> fl x"
proof -
  let ?q = "(2::rat) powi (fexp x - 52)"
  have q: "0 < ?q" by simp
  have "(of_int (2 ^ 52) :: rat) = 2 powi 52" by simp
  also have "\<dots> = 2 powi (fexp x) / ?q" by (simp flip: power_int_diff)
  also have "\<dots> \<le> x / ?q"
    using fexp_lower [OF assms] by (intro divide_right_mono) simp_all
  finally have "round_half_even (of_int (2 ^ 52)) \<le> round_half_even (x / ?q)" by (rule rhe_mono)
  then have "2 ^ 52 \<le> round_half_even (x / ?q)" by (simp only: rhe_of_int)
  then have "(of_int (2 ^ 52) :: rat) \<le> of_int (round_half_even (x / ?q))" by (simp only: of_int_le_iff)
  then have "of_int (2 ^ 52) * ?q \<le> of_int (round_half_even (x / ?q)) * ?q"
    using q by (simp only: mult_le_cancel_right_pos)
  moreover have "of_int (2 ^ 52) * ?q = 2 powi 52 * ?q" by simp
  moreover have "2 powi 52 * ?q = 2 powi (fexp x)"
    using power_int_add [of "2::rat" 52 "fexp x - 52"] by simp
  ultimately show ?thesis by (simp only: fl_pos [OF assms(1)])
qed

lemma fl_mono_pos:
  assumes "0 < x" "x \<le> y"
  shows "fl x \<le> fl y"
proof -
  have y: "0 < y" using assms by simp
  consider "fexp x = fexp y" | "fexp x < fexp y" | "fexp y < fexp x" by linarith
  then show ?thesis
  proof cases
    case 1
    let ?q = "(2::rat) powi (fexp y - 52)"
    have q: "0 < ?q" by simp
    have "x / ?q \<le> y / ?q" using assms(2) by (intro divide_right_mono) simp_all
    then have "round_half_even (x / ?q) \<le> round_half_even (y / ?q)" by (rule rhe_mono)
    then have "(of_int (round_half_even (x / ?q)) :: rat) \<le> of_int (round_half_even (y / ?q))"
      by (simp only: of_int_le_iff)
    then have "of_int (round_half_even (x / ?q)) * ?q \<le> of_int (round_half_even (y / ?q)) * ?q"
      using q by (simp only: mult_le_cancel_right_pos)
    then show ?thesis by (simp only: fl_pos [OF assms(1)] fl_pos [OF y] 1)
  next
    case 2
    then have lo: "- 1022 < fexp y" by (simp add: fexp_def)
    have "fl x \<le> 2 powi (fexp x + 1)" by (rule fl_le_pow [OF assms(1)])
    also have "\<dots> \<le> 2 powi (fexp y)" using 2 by (intro power_int_increasing) simp_all
    also have "\<dots> \<le> fl y" by (rule fl_ge_pow [OF y lo])
    finally show ?thesis .
  next
    case 3
    then have lo: "- 1022 < fexp x" by (simp add: fexp_def)
    have "y < 2 powi (fexp y + 1)" by (rule fexp_upper [OF y])
    also have "\<dots> \<le> 2 powi (fexp x)" using 3 by (intro power_int_increasing) simp_all
    also have "\<dots> \<le> x" by (rule fexp_lower [OF assms(1) lo])
    finally show ?thesis using assms(2) by simp
  qed
qed

lemma fl_nonneg: assumes "0 \<le> x" shows "0 \<le> fl x"
proof (cases "x = 0")
  case True then show ?thesis by (simp add: fl_def)
next
  case False
  then have x: "0 < x" using assms by simp
  have "0 \<le> x / 2 powi (fexp x - 52)" using x by simp
  then have "round_half_even (of_int 0) \<le> round_half_even (x / 2 powi (fexp x - 52))"
    by (intro rhe_mono) simp
  then have "0 \<le> round_half_even (x / 2 powi (fexp x - 52))" by (simp only: rhe_of_int)
  then show ?thesis by (simp add: fl_pos [OF x])
qed

lemma fl_mono: assumes "0 \<le> x" "x \<le> y" shows "fl x \<le> fl y"
proof (cases "x = 0")
  case True
  then show ?thesis using fl_nonneg [of y] assms by (simp add: fl_def)
next
  case False
  then show ?thesis using assms by (intro fl_mono_pos) simp_all
qed

lemma fl_eqI:
  assumes "2 powi e \<le> x" "x < 2 powi (e + 1)" "- 1022 \<le> e"
    and "round_half_even (x / 2 powi (e - 52)) = m"
  shows "fl x = of_int m * 2 powi (e - 52)"
proof -
  have "(0::rat) < 2 powi e" by simp
  with assms(1) have x: "0 < x" by linarith
  have "ilog2 x = e" by (rule ilog2_unique [OF assms(1,2)])
  then have "fexp x = e" using x assms(3) by (simp add: fexp_def)
  then show ?thesis using assms(4) by (simp add: fl_pos [OF x])
qed


lemma rhe_nearest:
  assumes "of_int m - 1 / 2 < y" "y < of_int m + 1 / 2"
  shows "round_half_even y = m"
proof -
  have "\<lfloor>y\<rfloor> = m \<or> \<lfloor>y\<rfloor> = m - 1" using assms by linarith
  then show ?thesis
  proof
    assume f: "\<lfloor>y\<rfloor> = m"
    then show ?thesis using assms by (simp add: round_half_even_def Let_def)
  next
    assume f: "\<lfloor>y\<rfloor> = m - 1"
    then show ?thesis using assms by (simp add: round_half_even_def Let_def)
  qed
qed

lemma rhe_tie:
  assumes "y = of_int m + 1 / 2"
  shows "round_half_even y = (if even m then m else m + 1)"
proof -
  have "\<lfloor>y\<rfloor> = m" using assms by linarith
  then show ?thesis using assms by (simp add: round_half_even_def Let_def)
qed


lemma fl_exactI:
  assumes "2 powi e \<le> x" "x < 2 powi (e + 1)" "- 1022 \<le> e"
    and "x / 2 powi (e - 52) = of_int m"
  shows "fl x = x"
proof -
  have "round_half_even (x / 2 powi (e - 52)) = m" by (simp only: assms(4) rhe_of_int)
  then have "fl x = of_int m * 2 powi (e - 52)" by (rule fl_eqI [OF assms(1-3)])
  also have "\<dots> = x / 2 powi (e - 52) * 2 powi (e - 52)" by (simp only: assms(4))
  also have "\<dots> = x" by simp
  finally show ?thesis .
qed

lemma rhe_numeral [simp]: "round_half_even (numeral n) = numeral n"
  using rhe_of_int [of "numeral n"] by simp

lemma rhe_zero [simp]: "round_half_even 0 = 0"
  using rhe_of_int [of 0] by simp

lemma rhe_nonneg: assumes "0 \<le> y" shows "0 \<le> round_half_even y"
  using rhe_mono [OF assms] by simp

lemma fl_30: "fl 30 = 30"
  by (rule fl_exactI [where e = 4 and m = "30 * 2 ^ 48"]) simp_all

lemma float_of_int_30: "float_of_int 30 = Inr 30"
  by (simp add: float_of_int_def fl_30)

lemma float_of_int_nonneg:
  assumes "0 \<le> n" "float_of_int n = Inr f"
  shows "f = fl (of_int n)" "0 \<le> f"
proof -
  show f: "f = fl (of_int n)"
    using assms(2) by (simp add: float_of_int_def Let_def split: if_splits)
  show "0 \<le> f" unfolding f using assms(1) by (intro fl_nonneg) simp
qed

section \<open>Sidecar parser on single inputs\<close>

text \<open>
  C4: the parser would never raise. A sidecar whose first text of the timestamp shape
  names month 13 matches the pattern, and \<^verbatim>\<open>strptime\<close> raises \<^verbatim>\<open>ValueError\<close>
  on it; the code does not catch it.
\<close>

theorem parse_timestamp_raises:
  "parse_srt_for_timestamp ''2024-13-01 00:00:00.000'' = Inl ValueError"
  by (simp add: parse_srt_for_timestamp_def timestamp_pattern_def is_digit_def strptime_def
      int_of_digits_def digit_val_def valid_datetime_def)

lemma fl_frame_ms_30: "fl (100 / 3) = 4691249611844267 / 140737488355328"
  by (subst fl_eqI [where e = 5 and m = 4691249611844267]) (simp_all add: rhe_nearest)

lemma float_div_frame_ms_30:
  "float_div 1000 30 = Inr (Finite (4691249611844267 / 140737488355328))"
  by (simp add: float_div_def to_float_def fl_frame_ms_30)

lemma fl_500: "fl 500 = 500"
  by (rule fl_exactI [where e = 8 and m = "125 * 2 ^ 46"]) simp_all

lemma float_of_int_500: "float_of_int 500 = Inr 500"
  by (simp add: float_of_int_def fl_500)

lemma fl_half_second_frames:
  "fl (500 / (4691249611844267 / 140737488355328)) = 8444249301319679 / 562949953421312"
  by (subst fl_eqI [where e = 3 and m = 8444249301319679]) (simp_all add: rhe_nearest)

lemma float_div_half_second:
  "float_div 500 (4691249611844267 / 140737488355328) =
     Inr (Finite (8444249301319679 / 562949953421312))"
  unfolding float_div_def to_float_def Let_def fl_half_second_frames by simp

lemma int_of_float_half_second:
  "int_of_float (Finite (8444249301319679 / 562949953421312)) = Inr 14"
proof -
  have "\<lfloor>8444249301319679 / 562949953421312 :: rat\<rfloor> = 14"
    by (rule floor_unique) simp_all
  then show ?thesis by (simp add: int_of_float_def)
qed

text \<open>
  C1: the duration would be the floor of the exact quotient. For one marker of 500 ms at
  30 frames per second the exact quotient is 15; the code divides by the double nearest
  to \<open>1000 / 30\<close>, which lies above it, gets a quotient just below 15 and returns 14.
\<close>

theorem duration_half_second:
  "get_clip_duration_frames ''DiffTime: 500ms'' 30 = Inr (Some 14) \<and>
   \<lfloor>(500::rat) / (1000 / 30)\<rfloor> = 15"
proof -
  have mk: "findall ''DiffTime: '' ''ms'' ''DiffTime: 500ms'' = [''500'']"
    by (simp add: match_marker_def is_digit_def)
  have ms: "(\<Sum>x\<leftarrow>[''500'']. int (int_of_digits x)) = 500"
    by (simp add: int_of_digits_def digit_val_def)
  have "get_clip_duration_frames ''DiffTime: 500ms'' 30 = Inr (Some 14)"
    unfolding get_clip_duration_frames_def Let_def mk ms float_of_int_30
    by (simp add: float_div_frame_ms_30 float_of_int_500 float_div_half_second
        int_of_float_half_second)
  then show ?thesis by simp
qed

section \<open>Facts about the scanner\<close>

lemma hidden_prefix: "(prefix ''._'' s \<or> prefix ''.'' s) = prefix ''.'' s"
  by (auto simp: prefix_def)

lemma norm_ext_video:
  "(norm_ext nm = ''video'') = (suffix ''.mp4'' (lower nm) \<or> suffix ''.mov'' (lower nm))"
  by (simp add: norm_ext_def Let_def)

lemma lower_char_dot: "(lower_char c = CHR ''.'') = (c = CHR ''.'')"
  by (cases c) (auto simp: lower_char_def is_upper_def)

lemma lower_char_4: "(lower_char c = CHR ''4'') = (c = CHR ''4'')"
  by (cases c) (auto simp: lower_char_def is_upper_def)

lemma lower_char_m: "(lower_char c = CHR ''m'') = (c = CHR ''m'' \<or> c = CHR ''M'')"
  by (cases c) (auto simp: lower_char_def is_upper_def)

lemma lower_char_p: "(lower_char c = CHR ''p'') = (c = CHR ''p'' \<or> c = CHR ''P'')"
  by (cases c) (auto simp: lower_char_def is_upper_def)

lemma lower_char_o: "(lower_char c = CHR ''o'') = (c = CHR ''o'' \<or> c = CHR ''O'')"
  by (cases c) (auto simp: lower_char_def is_upper_def)

lemma lower_char_v: "(lower_char c = CHR ''v'') = (c = CHR ''v'' \<or> c = CHR ''V'')"
  by (cases c) (auto simp: lower_char_def is_upper_def)

lemma suffix_lower4:
  "suffix [a, b, c, d] (lower nm) =
     (\<exists>stem c0 c1 c2 c3. nm = stem @ [c0, c1, c2, c3] \<and> lower_char c0 = a \<and>
        lower_char c1 = b \<and> lower_char c2 = c \<and> lower_char c3 = d)"
proof
  assume "suffix [a, b, c, d] (lower nm)"
  then obtain zs where "map lower_char nm = zs @ [a, b, c, d]"
    by (auto simp: suffix_def lower_def)
  then obtain us vs where nm: "nm = us @ vs" and vs: "map lower_char vs = [a, b, c, d]"
    by (auto simp: map_eq_append_conv)
  from vs obtain c0 c1 c2 c3 where "vs = [c0, c1, c2, c3]" "lower_char c0 = a"
    "lower_char c1 = b" "lower_char c2 = c" "lower_char c3 = d"
    by (auto simp: map_eq_Cons_conv)
  with nm show "\<exists>stem c0 c1 c2 c3. nm = stem @ [c0, c1, c2, c3] \<and> lower_char c0 = a \<and>
        lower_char c1 = b \<and> lower_char c2 = c \<and> lower_char c3 = d"
    by blast
next
  assume "\<exists>stem c0 c1 c2 c3. nm = stem @ [c0, c1, c2, c3] \<and> lower_char c0 = a \<and>
        lower_char c1 = b \<and> lower_char c2 = c \<and> lower_char c3 = d"
  then show "suffix [a, b, c, d] (lower nm)"
    by (auto simp: suffix_def lower_def)
qed

lemma drop_first_char:
  "(\<exists>stem c0 c1 c2 c3. nm = stem @ [c0, c1, c2, c3] \<and> c0 = d \<and> R c1 c2 c3) =
   (\<exists>stem c1 c2 c3. nm = stem @ [d, c1, c2, c3] \<and> R c1 c2 c3)"
  by (intro iffI; elim exE conjE; hypsubst; intro exI conjI; (rule refl | assumption))

lemma suffix_mp4:
  "suffix ''.mp4'' (lower nm) =
     (\<exists>stem c1 c2 c3. nm = stem @ [CHR ''.'', c1, c2, c3] \<and>
        (c1 = CHR ''m'' \<or> c1 = CHR ''M'') \<and> (c2 = CHR ''p'' \<or> c2 = CHR ''P'') \<and>
        c3 = CHR ''4'')"
  by (simp only: suffix_lower4 lower_char_dot lower_char_4 lower_char_m lower_char_p
      drop_first_char)

lemma suffix_mov:
  "suffix ''.mov'' (lower nm) =
     (\<exists>stem c1 c2 c3. nm = stem @ [CHR ''.'', c1, c2, c3] \<and>
        (c1 = CHR ''m'' \<or> c1 = CHR ''M'') \<and> (c2 = CHR ''o'' \<or> c2 = CHR ''O'') \<and>
        (c3 = CHR ''v'' \<or> c3 = CHR ''V''))"
  by (simp only: suffix_lower4 lower_char_dot lower_char_m lower_char_o lower_char_v
      drop_first_char)

lemma ex_either:
  "((\<exists>s a b c. N s a b c \<and> C a \<and> X b c) \<or> (\<exists>s a b c. N s a b c \<and> C a \<and> Y b c)) =
   (\<exists>s a b c. N s a b c \<and> C a \<and> (X b c \<or> Y b c))"
  by blast

lemma video_name_letters:
  "(suffix ''.mp4'' (lower nm) \<or> suffix ''.mov'' (lower nm)) =
     (\<exists>stem c1 c2 c3. nm = stem @ [CHR ''.'', c1, c2, c3] \<and>
        (c1 = CHR ''m'' \<or> c1 = CHR ''M'') \<and>
        ((c2 = CHR ''p'' \<or> c2 = CHR ''P'') \<and> c3 = CHR ''4'' \<or>
         (c2 = CHR ''o'' \<or> c2 = CHR ''O'') \<and> (c3 = CHR ''v'' \<or> c3 = CHR ''V'')))"
  unfolding suffix_mp4 suffix_mov
  by (rule ex_either
      [of "\<lambda>s a b c. nm = s @ [CHR ''.'', a, b, c]" "\<lambda>a. a = CHR ''m'' \<or> a = CHR ''M''"
          "\<lambda>b c. (b = CHR ''p'' \<or> b = CHR ''P'') \<and> c = CHR ''4''"
          "\<lambda>b c. (b = CHR ''o'' \<or> b = CHR ''O'') \<and> (c = CHR ''v'' \<or> c = CHR ''V'')"])

lemma mset_listing:
  assumes "\<And>c. c \<in> set cs \<Longrightarrow> mset (map fst (filter Q (e c # g c))) = mset (F c)"
  shows "mset (map fst (filter Q (map e cs @ concat (map g cs)))) = mset (concat (map F cs))"
  using assms
proof (induction cs)
  case Nil
  show ?case by simp
next
  case (Cons c cs)
  have split: "mset (map fst (filter Q (xs @ ys))) =
      mset (map fst (filter Q xs)) + mset (map fst (filter Q ys))" for xs ys
    by simp
  have c: "mset (map fst (filter Q ([e c] @ g c))) = mset (F c)"
    using Cons.prems [of c] by simp
  have cs: "mset (map fst (filter Q (map e cs @ concat (map g cs)))) = mset (concat (map F cs))"
    by (rule Cons.IH) (rule Cons.prems, simp)
  have "mset (map fst (filter Q (map e (c # cs) @ concat (map g (c # cs))))) =
        mset (map fst (filter Q ([e c] @ (map e cs @ (g c @ concat (map g cs))))))"
    by simp
  also have "\<dots> = mset (map fst (filter Q [e c])) + (mset (map fst (filter Q (map e cs))) +
        (mset (map fst (filter Q (g c))) + mset (map fst (filter Q (concat (map g cs))))))"
    by (simp only: split)
  also have "\<dots> = (mset (map fst (filter Q [e c])) + mset (map fst (filter Q (g c)))) +
        (mset (map fst (filter Q (map e cs))) + mset (map fst (filter Q (concat (map g cs)))))"
    by (simp only: ac_simps)
  also have "\<dots> = mset (map fst (filter Q ([e c] @ g c))) +
        mset (map fst (filter Q (map e cs @ concat (map g cs))))"
    by (simp only: split)
  also have "\<dots> = mset (F c) + mset (concat (map F cs))" by (simp only: c cs)
  also have "\<dots> = mset (concat (map F (c # cs)))" by simp
  finally show ?case .
qed

lemma rglob_below_files:
  "mset (map fst (filter (\<lambda>(p, is_file). is_file \<and> P p) (entry folder node # rglob_below folder node))) =
   mset (filter P (map ((@) folder) (files_in node)))"
proof (induction node arbitrary: folder)
  case (File n)
  show ?case by simp
next
  case (Dir n cs)
  have "mset (map fst (filter (\<lambda>(p, is_file). is_file \<and> P p)
          (map (entry (folder @ [n])) cs @ concat (map (rglob_below (folder @ [n])) cs)))) =
        mset (concat (map (\<lambda>c. filter P (map ((@) (folder @ [n])) (files_in c))) cs))"
    by (rule mset_listing) (rule Dir.IH)
  also have "\<dots> = mset (filter P (map ((@) folder) (map ((#) n) (concat (map files_in cs)))))"
  proof -
    have "(@) (folder @ [n]) = (\<lambda>x. folder @ n # x)" by (simp add: fun_eq_iff)
    then show ?thesis by (simp add: filter_concat map_concat comp_def)
  qed
  finally show ?case by simp
qed

lemma rglob_files:
  "mset (map fst (filter (\<lambda>(p, is_file). is_file \<and> P p) (rglob folder entries))) =
   mset (filter P (regular_files_under folder entries))"
proof -
  have "mset (map fst (filter (\<lambda>(p, is_file). is_file \<and> P p) (rglob folder entries))) =
        mset (concat (map (\<lambda>c. filter P (map ((@) folder) (files_in c))) entries))"
    unfolding rglob_def by (rule mset_listing) (rule rglob_below_files)
  also have "\<dots> = mset (filter P (regular_files_under folder entries))"
    by (simp add: regular_files_under_def filter_concat map_concat comp_def)
  finally show ?thesis .
qed

section \<open>Video discovery\<close>

text \<open>
  C10: \<^verbatim>\<open>scan_videos\<close> returns exactly the regular files below the camera folder, at any
  depth, each once, whose name ends in a dot, \<^verbatim>\<open>m\<close> or \<^verbatim>\<open>M\<close>, and then \<^verbatim>\<open>p\<close> or \<^verbatim>\<open>P\<close>
  and \<^verbatim>\<open>4\<close>, or \<^verbatim>\<open>o\<close> or \<^verbatim>\<open>O\<close> and \<^verbatim>\<open>v\<close> or \<^verbatim>\<open>V\<close> (that is, in \<^verbatim>\<open>.mp4\<close> or
  \<^verbatim>\<open>.mov\<close> in any mix of capitals), and whose own name does not start with a dot. Only the
  last component of the path is looked at, so a video inside a directory whose name
  starts with a dot is returned. The order of the result is the one of
  \<^verbatim>\<open>rglob\<close>, which is not part of the statement; the example shows it for one tree.
\<close>

theorem scan_videos_exact:
  "mset (scan_videos cam_folder entries) =
     mset (filter
       (\<lambda>p. (\<exists>stem c1 c2 c3. path_name p = stem @ [CHR ''.'', c1, c2, c3] \<and>
                (c1 = CHR ''m'' \<or> c1 = CHR ''M'') \<and>
                ((c2 = CHR ''p'' \<or> c2 = CHR ''P'') \<and> c3 = CHR ''4'' \<or>
                 (c2 = CHR ''o'' \<or> c2 = CHR ''O'') \<and> (c3 = CHR ''v'' \<or> c3 = CHR ''V''))) \<and>
             \<not> prefix ''.'' (path_name p))
       (regular_files_under cam_folder entries)) \<and>
   regular_files_under [''CAM1'']
     [Dir ''.trash'' [File ''clip.MP4'', File ''.clip.mp4''],
      Dir ''sub'' [File ''inner.mp4'', Dir ''deep'' [File ''B.MoV'', File ''notes.txt'']],
      File ''z.mov'', File ''A.MOV'', File ''x.mp4x'', File ''mp4'', File ''y.srt'',
      Dir ''dir.mp4'' [], File ''._z.mov''] =
     [[''CAM1'', ''.trash'', ''clip.MP4''], [''CAM1'', ''.trash'', ''.clip.mp4''],
      [''CAM1'', ''sub'', ''inner.mp4''], [''CAM1'', ''sub'', ''deep'', ''B.MoV''],
      [''CAM1'', ''sub'', ''deep'', ''notes.txt''], [''CAM1'', ''z.mov''],
      [''CAM1'', ''A.MOV''], [''CAM1'', ''x.mp4x''], [''CAM1'', ''mp4''],
      [''CAM1'', ''y.srt''], [''CAM1'', ''._z.mov'']] \<and>
   scan_videos [''CAM1'']
     [Dir ''.trash'' [File ''clip.MP4'', File ''.clip.mp4''],
      Dir ''sub'' [File ''inner.mp4'', Dir ''deep'' [File ''B.MoV'', File ''notes.txt'']],
      File ''z.mov'', File ''A.MOV'', File ''x.mp4x'', File ''mp4'', File ''y.srt'',
      Dir ''dir.mp4'' [], File ''._z.mov''] =
     [[''CAM1'', ''z.mov''], [''CAM1'', ''A.MOV''], [''CAM1'', ''.trash'', ''clip.MP4''],
      [''CAM1'', ''sub'', ''inner.mp4''], [''CAM1'', ''sub'', ''deep'', ''B.MoV'']]"
proof -
  have sel: "(\<lambda>(p, is_file). \<not> (prefix ''._'' (path_name p) \<or> prefix ''.'' (path_name p)) \<and>
               is_file \<and> norm_ext (path_name p) = ''video'') =
             (\<lambda>(p, is_file). is_file \<and>
               ((\<exists>stem c1 c2 c3. path_name p = stem @ [CHR ''.'', c1, c2, c3] \<and>
                (c1 = CHR ''m'' \<or> c1 = CHR ''M'') \<and>
                ((c2 = CHR ''p'' \<or> c2 = CHR ''P'') \<and> c3 = CHR ''4'' \<or>
                 (c2 = CHR ''o'' \<or> c2 = CHR ''O'') \<and> (c3 = CHR ''v'' \<or> c3 = CHR ''V''))) \<and>
                \<not> prefix ''.'' (path_name p)))"
    unfolding hidden_prefix norm_ext_video video_name_letters by (auto simp: fun_eq_iff)
  have gen: "mset (scan_videos cam_folder entries) =
     mset (filter
       (\<lambda>p. (\<exists>stem c1 c2 c3. path_name p = stem @ [CHR ''.'', c1, c2, c3] \<and>
                (c1 = CHR ''m'' \<or> c1 = CHR ''M'') \<and>
                ((c2 = CHR ''p'' \<or> c2 = CHR ''P'') \<and> c3 = CHR ''4'' \<or>
                 (c2 = CHR ''o'' \<or> c2 = CHR ''O'') \<and> (c3 = CHR ''v'' \<or> c3 = CHR ''V''))) \<and>
             \<not> prefix ''.'' (path_name p))
       (regular_files_under cam_folder entries))"
    unfolding scan_videos_def sel by (rule rglob_files)
  have ex1: "regular_files_under [''CAM1'']
     [Dir ''.trash'' [File ''clip.MP4'', File ''.clip.mp4''],
      Dir ''sub'' [File ''inner.mp4'', Dir ''deep'' [File ''B.MoV'', File ''notes.txt'']],
      File ''z.mov'', File ''A.MOV'', File ''x.mp4x'', File ''mp4'', File ''y.srt'',
      Dir ''dir.mp4'' [], File ''._z.mov''] =
     [[''CAM1'', ''.trash'', ''clip.MP4''], [''CAM1'', ''.trash'', ''.clip.mp4''],
      [''CAM1'', ''sub'', ''inner.mp4''], [''CAM1'', ''sub'', ''deep'', ''B.MoV''],
      [''CAM1'', ''sub'', ''deep'', ''notes.txt''], [''CAM1'', ''z.mov''],
      [''CAM1'', ''A.MOV''], [''CAM1'', ''x.mp4x''], [''CAM1'', ''mp4''],
      [''CAM1'', ''y.srt''], [''CAM1'', ''._z.mov'']]"
    by (simp add: regular_files_under_def)
  have ex2: "scan_videos [''CAM1'']
     [Dir ''.trash'' [File ''clip.MP4'', File ''.clip.mp4''],
      Dir ''sub'' [File ''inner.mp4'', Dir ''deep'' [File ''B.MoV'', File ''notes.txt'']],
      File ''z.mov'', File ''A.MOV'', File ''x.mp4x'', File ''mp4'', File ''y.srt'',
      Dir ''dir.mp4'' [], File ''._z.mov''] =
     [[''CAM1'', ''z.mov''], [''CAM1'', ''A.MOV''], [''CAM1'', ''.trash'', ''clip.MP4''],
      [''CAM1'', ''sub'', ''inner.mp4''], [''CAM1'', ''sub'', ''deep'', ''B.MoV'']]"
    by (simp add: scan_videos_def rglob_def path_name_def norm_ext_def lower_def lower_char_def
        is_upper_def suffix_def)
  from gen ex1 ex2 show ?thesis by blast
qed

section \<open>Facts about the grouping\<close>

lemma group_by_date_acc:
  assumes "group_by_date find_srt read_text vs g = Inr g'"
  shows "g' k =
     (case g k of
        None \<Rightarrow> (if day_clips k (dated_clips find_srt read_text vs) = [] then None
                 else Some (day_clips k (dated_clips find_srt read_text vs)))
      | Some xs \<Rightarrow> Some (xs @ day_clips k (dated_clips find_srt read_text vs)))"
  using assms
proof (induction vs arbitrary: g)
  case Nil
  then show ?case by (simp add: day_clips_def split: option.splits)
next
  case (Cons v vs)
  show ?case
  proof (cases "find_srt v")
    case None
    with Cons.prems have "group_by_date find_srt read_text vs g = Inr g'" by simp
    from Cons.IH [OF this] None show ?thesis by (simp split: option.splits)
  next
    case (Some srt)
    show ?thesis
    proof (cases "parse_srt_for_timestamp (read_text srt)")
      case (Inl e)
      with Cons.prems Some show ?thesis by simp
    next
      case (Inr r)
      show ?thesis
      proof (cases r)
        case None
        with Cons.prems \<open>find_srt v = Some srt\<close> Inr
        have "group_by_date find_srt read_text vs g = Inr g'" by simp
        from Cons.IH [OF this] None Inr \<open>find_srt v = Some srt\<close> show ?thesis
          by (simp split: option.splits)
      next
        case (Some ts)
        with Cons.prems \<open>find_srt v = Some srt\<close> Inr
        have "group_by_date find_srt read_text vs
                (setdefault_append g (strftime_ymd ts) (v, srt, ts)) = Inr g'"
          by simp
        from Cons.IH [OF this] Some Inr \<open>find_srt v = Some srt\<close> show ?thesis
          by (auto simp: setdefault_append_def day_clips_def split: option.splits)
      qed
    qed
  qed
qed

lemma group_by_date_groups:
  assumes "group_by_date find_srt read_text vs Map.empty = Inr g"
  shows "g k = (if day_clips k (dated_clips find_srt read_text vs) = [] then None
                else Some (day_clips k (dated_clips find_srt read_text vs)))"
  using group_by_date_acc [OF assms, of k] by simp

lemma parse_valid:
  assumes "parse_srt_for_timestamp content = Inr (Some t)"
  shows "valid_datetime t"
  using assms
  by (auto simp: parse_srt_for_timestamp_def strptime_def Let_def
      split: option.splits sum.splits if_splits)

lemma dated_clips_parsed:
  assumes "(v, srt, ts) \<in> set (dated_clips find_srt read_text vs)"
  shows "v \<in> set vs \<and> find_srt v = Some srt \<and>
         parse_srt_for_timestamp (read_text srt) = Inr (Some ts)"
  using assms
  by (induction vs) (auto split: option.splits sum.splits)

lemma two_digits_table:
  assumes "n < 100"
  shows "two_digits n = [''0123456789'' ! (n div 10), ''0123456789'' ! (n mod 10)]"
proof -
  have "n div 10 < 10" using assms by (simp add: div_less_iff_less_mult)
  then have "n div 10 mod 10 = n div 10" by (rule mod_less)
  then show ?thesis unfolding two_digits_def digit_char_def by (simp only:)
qed

lemma strftime_ymd_fields:
  assumes "valid_datetime t"
  shows "strftime_ymd t =
     [''0123456789'' ! (year t mod 100 div 10), ''0123456789'' ! (year t mod 10), CHR ''-'',
      ''0123456789'' ! (month t div 10), ''0123456789'' ! (month t mod 10), CHR ''-'',
      ''0123456789'' ! (day t div 10), ''0123456789'' ! (day t mod 10)]"
proof -
  have m: "month t < 100" and d: "day t < 100"
    using assms by (auto simp: valid_datetime_def days_in_month_def split: if_splits)
  have y: "year t mod 100 < 100" by simp
  have yy: "year t mod 100 mod 10 = year t mod 10" by (rule mod_mod_cancel) simp
  show ?thesis
    unfolding strftime_ymd_def two_digits_table [OF y] two_digits_table [OF m]
      two_digits_table [OF d] yy
    by (simp only: append.simps)
qed

lemma digit_table_inj:
  assumes "''0123456789'' ! a = ''0123456789'' ! b" "a < 10" "b < 10"
  shows "a = b"
proof -
  have "distinct ''0123456789''" by simp
  moreover have "a < length ''0123456789''" "b < length ''0123456789''"
    using assms(2,3) by simp_all
  ultimately show ?thesis using assms(1) by (simp only: nth_eq_iff_index_eq)
qed

lemma strftime_ymd_same:
  assumes "valid_datetime a" "valid_datetime b"
  shows "(strftime_ymd a = strftime_ymd b) =
         (year a mod 100 = year b mod 100 \<and> month a = month b \<and> day a = day b)"
proof
  assume eq: "strftime_ymd a = strftime_ymd b"
  have ma: "month a div 10 < 10" "day a div 10 < 10"
    and mb: "month b div 10 < 10" "day b div 10 < 10"
    using assms
    by (auto simp: valid_datetime_def days_in_month_def div_less_iff_less_mult
        split: if_splits)
  from eq have t:
    "''0123456789'' ! (year a mod 100 div 10) = ''0123456789'' ! (year b mod 100 div 10)"
    "''0123456789'' ! (year a mod 10) = ''0123456789'' ! (year b mod 10)"
    "''0123456789'' ! (month a div 10) = ''0123456789'' ! (month b div 10)"
    "''0123456789'' ! (month a mod 10) = ''0123456789'' ! (month b mod 10)"
    "''0123456789'' ! (day a div 10) = ''0123456789'' ! (day b div 10)"
    "''0123456789'' ! (day a mod 10) = ''0123456789'' ! (day b mod 10)"
    unfolding strftime_ymd_fields [OF assms(1)] strftime_ymd_fields [OF assms(2)]
    by (simp_all only: list.inject)
  have y1: "year a mod 100 div 10 = year b mod 100 div 10"
    by (rule digit_table_inj [OF t(1)]) (simp_all add: div_less_iff_less_mult)
  have y2: "year a mod 10 = year b mod 10"
    by (rule digit_table_inj [OF t(2)]) simp_all
  have m1: "month a div 10 = month b div 10"
    by (rule digit_table_inj [OF t(3)]) (rule ma mb)+
  have m2: "month a mod 10 = month b mod 10"
    by (rule digit_table_inj [OF t(4)]) simp_all
  have d1: "day a div 10 = day b div 10"
    by (rule digit_table_inj [OF t(5)]) (rule ma mb)+
  have d2: "day a mod 10 = day b mod 10"
    by (rule digit_table_inj [OF t(6)]) simp_all
  have split: "n = 10 * (n div 10) + n mod 10" for n :: nat by simp
  have "year a mod 100 mod 10 = year a mod 10" "year b mod 100 mod 10 = year b mod 10"
    by (rule mod_mod_cancel, simp)+
  then have "year a mod 100 = year b mod 100"
    using split [of "year a mod 100"] split [of "year b mod 100"] y1 y2 by simp
  moreover have "month a = month b"
    using split [of "month a"] split [of "month b"] m1 m2 by simp
  moreover have "day a = day b"
    using split [of "day a"] split [of "day b"] d1 d2 by simp
  ultimately show "year a mod 100 = year b mod 100 \<and> month a = month b \<and> day a = day b"
    by simp
next
  assume "year a mod 100 = year b mod 100 \<and> month a = month b \<and> day a = day b"
  then show "strftime_ymd a = strftime_ymd b" by (simp add: strftime_ymd_def)
qed

section \<open>Day groups\<close>

text \<open>
  C3: every clip with a parsed timestamp is put under the key
  \<^verbatim>\<open>ts.strftime('%y-%m-%d')\<close> of its own timestamp; the folder it lies in is no input of
  the key. The key of a group is, for every clip in it, the two last digits of the year
  of that clip's timestamp, a hyphen, the two digits of its month, a hyphen and the two
  digits of its day, and the clip is a discovered video with the sidecar and the
  timestamp it was found with. Two dated clips are in one group exactly when their
  timestamps agree in year modulo 100, month and day. Each dated clip is in the group
  of its own date, a group holds exactly the dated clips of its day in discovery order,
  and a second grouping of the same dated clips gives the same groups.
\<close>

theorem group_by_date_own_day:
  assumes "group_by_date find_srt read_text videos Map.empty = Inr g"
  shows "(\<forall>k items. g k = Some items \<longrightarrow>
            (\<forall>(v, srt, ts) \<in> set items.
               k = [''0123456789'' ! (year ts mod 100 div 10), ''0123456789'' ! (year ts mod 10),
                    CHR ''-'',
                    ''0123456789'' ! (month ts div 10), ''0123456789'' ! (month ts mod 10),
                    CHR ''-'',
                    ''0123456789'' ! (day ts div 10), ''0123456789'' ! (day ts mod 10)] \<and>
               v \<in> set videos \<and> find_srt v = Some srt \<and>
               parse_srt_for_timestamp (read_text srt) = Inr (Some ts))) \<and>
         (\<forall>(v1, srt1, ts1) \<in> set (dated_clips find_srt read_text videos).
          \<forall>(v2, srt2, ts2) \<in> set (dated_clips find_srt read_text videos).
            (\<exists>k items. g k = Some items \<and> (v1, srt1, ts1) \<in> set items \<and>
                       (v2, srt2, ts2) \<in> set items) =
            (year ts1 mod 100 = year ts2 mod 100 \<and> month ts1 = month ts2 \<and>
             day ts1 = day ts2)) \<and>
         (\<forall>k items. g k = Some items \<longrightarrow>
            (\<forall>(v, srt, ts) \<in> set items. strftime_ymd ts = k)) \<and>
         (\<forall>(v, srt, ts) \<in> set (dated_clips find_srt read_text videos).
            \<exists>items. g (strftime_ymd ts) = Some items \<and> (v, srt, ts) \<in> set items) \<and>
         (\<forall>k. g k =
            (if filter (\<lambda>(v, srt, ts). strftime_ymd ts = k)
                  (dated_clips find_srt read_text videos) = [] then None
             else Some (filter (\<lambda>(v, srt, ts). strftime_ymd ts = k)
                  (dated_clips find_srt read_text videos)))) \<and>
         (\<forall>find_srt' read_text' videos' g'.
            dated_clips find_srt' read_text' videos' = dated_clips find_srt read_text videos \<longrightarrow>
            group_by_date find_srt' read_text' videos' Map.empty = Inr g' \<longrightarrow> g' = g)"
proof -
  note grp = group_by_date_groups [OF assms]
  let ?dc = "dated_clips find_srt read_text videos"
  have mem: "(v, srt, ts) \<in> set items \<Longrightarrow> g k = Some items \<Longrightarrow>
      (v, srt, ts) \<in> set ?dc \<and> strftime_ymd ts = k" for v srt ts items k
    by (auto simp: grp day_clips_def split: if_splits)
  have dated: "(v, srt, ts) \<in> set ?dc \<Longrightarrow>
      v \<in> set videos \<and> find_srt v = Some srt \<and>
      parse_srt_for_timestamp (read_text srt) = Inr (Some ts) \<and> valid_datetime ts"
    for v srt ts
    using dated_clips_parsed [of v srt ts find_srt read_text videos] parse_valid by blast
  have own1: "(v, srt, ts) \<in> set ?dc \<Longrightarrow>
      g (strftime_ymd ts) = Some (day_clips (strftime_ymd ts) ?dc) \<and>
      (v, srt, ts) \<in> set (day_clips (strftime_ymd ts) ?dc)" for v srt ts
  proof -
    assume m: "(v, srt, ts) \<in> set ?dc"
    then have "(v, srt, ts) \<in> set (day_clips (strftime_ymd ts) ?dc)"
      by (simp add: day_clips_def)
    then show ?thesis by (auto simp: grp)
  qed
  have fields: "\<forall>k items. g k = Some items \<longrightarrow>
            (\<forall>(v, srt, ts) \<in> set items.
               k = [''0123456789'' ! (year ts mod 100 div 10), ''0123456789'' ! (year ts mod 10),
                    CHR ''-'',
                    ''0123456789'' ! (month ts div 10), ''0123456789'' ! (month ts mod 10),
                    CHR ''-'',
                    ''0123456789'' ! (day ts div 10), ''0123456789'' ! (day ts mod 10)] \<and>
               v \<in> set videos \<and> find_srt v = Some srt \<and>
               parse_srt_for_timestamp (read_text srt) = Inr (Some ts))"
  proof (intro allI impI ballI, clarify)
    fix k items v srt ts
    assume g: "g k = Some items" and m: "(v, srt, ts) \<in> set items"
    from mem [OF m g] have dc: "(v, srt, ts) \<in> set ?dc" and k: "strftime_ymd ts = k"
      by simp_all
    from dated [OF dc] have d: "v \<in> set videos" "find_srt v = Some srt"
      "parse_srt_for_timestamp (read_text srt) = Inr (Some ts)" "valid_datetime ts"
      by simp_all
    show "k = [''0123456789'' ! (year ts mod 100 div 10), ''0123456789'' ! (year ts mod 10),
                    CHR ''-'',
                    ''0123456789'' ! (month ts div 10), ''0123456789'' ! (month ts mod 10),
                    CHR ''-'',
                    ''0123456789'' ! (day ts div 10), ''0123456789'' ! (day ts mod 10)] \<and>
               v \<in> set videos \<and> find_srt v = Some srt \<and>
               parse_srt_for_timestamp (read_text srt) = Inr (Some ts)"
      using strftime_ymd_fields [OF d(4)] k d(1-3) by simp
  qed
  have same: "\<forall>(v1, srt1, ts1) \<in> set ?dc. \<forall>(v2, srt2, ts2) \<in> set ?dc.
            (\<exists>k items. g k = Some items \<and> (v1, srt1, ts1) \<in> set items \<and>
                       (v2, srt2, ts2) \<in> set items) =
            (year ts1 mod 100 = year ts2 mod 100 \<and> month ts1 = month ts2 \<and>
             day ts1 = day ts2)"
  proof (intro ballI, clarify)
    fix v1 srt1 ts1 v2 srt2 ts2
    assume m1: "(v1, srt1, ts1) \<in> set ?dc" and m2: "(v2, srt2, ts2) \<in> set ?dc"
    have v: "valid_datetime ts1" "valid_datetime ts2"
      using dated [OF m1] dated [OF m2] by simp_all
    have "(\<exists>k items. g k = Some items \<and> (v1, srt1, ts1) \<in> set items \<and>
                       (v2, srt2, ts2) \<in> set items) =
          (strftime_ymd ts1 = strftime_ymd ts2)"
    proof
      assume "\<exists>k items. g k = Some items \<and> (v1, srt1, ts1) \<in> set items \<and>
                       (v2, srt2, ts2) \<in> set items"
      then obtain k items where g: "g k = Some items" and i1: "(v1, srt1, ts1) \<in> set items"
        and i2: "(v2, srt2, ts2) \<in> set items" by blast
      from mem [OF i1 g] mem [OF i2 g] show "strftime_ymd ts1 = strftime_ymd ts2" by simp
    next
      assume e: "strftime_ymd ts1 = strftime_ymd ts2"
      from own1 [OF m1] own1 [OF m2] e
      show "\<exists>k items. g k = Some items \<and> (v1, srt1, ts1) \<in> set items \<and>
                       (v2, srt2, ts2) \<in> set items"
        by auto
    qed
    then show "(\<exists>k items. g k = Some items \<and> (v1, srt1, ts1) \<in> set items \<and>
                       (v2, srt2, ts2) \<in> set items) =
            (year ts1 mod 100 = year ts2 mod 100 \<and> month ts1 = month ts2 \<and>
             day ts1 = day ts2)"
      by (simp only: strftime_ymd_same [OF v])
  qed
  have inv: "\<forall>k items. g k = Some items \<longrightarrow> (\<forall>(v, srt, ts) \<in> set items. strftime_ymd ts = k)"
    using mem by blast
  have own: "\<forall>(v, srt, ts) \<in> set ?dc.
            \<exists>items. g (strftime_ymd ts) = Some items \<and> (v, srt, ts) \<in> set items"
    using own1 by blast
  have exact: "\<forall>k. g k =
            (if filter (\<lambda>(v, srt, ts). strftime_ymd ts = k) ?dc = [] then None
             else Some (filter (\<lambda>(v, srt, ts). strftime_ymd ts = k) ?dc))"
    using grp by (simp add: day_clips_def)
  have again: "\<forall>find_srt' read_text' videos' g'.
            dated_clips find_srt' read_text' videos' = ?dc \<longrightarrow>
            group_by_date find_srt' read_text' videos' Map.empty = Inr g' \<longrightarrow> g' = g"
  proof (intro allI impI)
    fix find_srt' read_text' videos' g'
    assume same: "dated_clips find_srt' read_text' videos' = ?dc"
      and run: "group_by_date find_srt' read_text' videos' Map.empty = Inr g'"
    show "g' = g"
    proof
      fix k
      show "g' k = g k" using group_by_date_groups [OF run, of k] same by (simp add: grp)
    qed
  qed
  from fields same inv own exact again show ?thesis by blast
qed

theorem group_by_date_own_day_witness:
  "\<exists>g. group_by_date (\<lambda>v. if v = [''b.mp4''] then None else Some v)
          (\<lambda>p. if p = [''a.mp4''] then ''2024-05-10 00:00:30.000''
                else if p = [''c.mp4''] then ''no timestamp''
                else if p = [''d.mp4''] then ''2024-05-09 23:59:59.500''
                else if p = [''e.mp4''] then ''2023-05-10 12:00:00.000''
                else if p = [''f.mp4''] then ''2024-11-10 12:00:00.000''
                else ''1924-05-10 07:08:09.000'')
          [[''a.mp4''], [''b.mp4''], [''c.mp4''], [''d.mp4''], [''e.mp4''], [''f.mp4''],
           [''g.mp4'']] Map.empty = Inr g \<and>
       g ''24-05-10'' =
         Some [([''a.mp4''], [''a.mp4''],
                \<lparr>year = 2024, month = 5, day = 10, hour = 0, minute = 0, second = 30,
                 microsecond = 0\<rparr>),
               ([''g.mp4''], [''g.mp4''],
                \<lparr>year = 1924, month = 5, day = 10, hour = 7, minute = 8, second = 9,
                 microsecond = 0\<rparr>)] \<and>
       g ''24-05-09'' =
         Some [([''d.mp4''], [''d.mp4''],
                \<lparr>year = 2024, month = 5, day = 9, hour = 23, minute = 59, second = 59,
                 microsecond = 500000\<rparr>)] \<and>
       g ''23-05-10'' =
         Some [([''e.mp4''], [''e.mp4''],
                \<lparr>year = 2023, month = 5, day = 10, hour = 12, minute = 0, second = 0,
                 microsecond = 0\<rparr>)] \<and>
       g ''24-11-10'' =
         Some [([''f.mp4''], [''f.mp4''],
                \<lparr>year = 2024, month = 11, day = 10, hour = 12, minute = 0, second = 0,
                 microsecond = 0\<rparr>)] \<and>
       g ''24-05-11'' = None \<and> g ''2024-05-10'' = None"
proof -
  let ?fs = "\<lambda>v :: path. if v = [''b.mp4''] then None else Some v"
  let ?rd = "\<lambda>p :: path. if p = [''a.mp4''] then ''2024-05-10 00:00:30.000''
                else if p = [''c.mp4''] then ''no timestamp''
                else if p = [''d.mp4''] then ''2024-05-09 23:59:59.500''
                else if p = [''e.mp4''] then ''2023-05-10 12:00:00.000''
                else if p = [''f.mp4''] then ''2024-11-10 12:00:00.000''
                else ''1924-05-10 07:08:09.000''"
  let ?vs = "[[''a.mp4''], [''b.mp4''], [''c.mp4''], [''d.mp4''], [''e.mp4''], [''f.mp4''],
           [''g.mp4'']]"
  let ?a = "\<lparr>year = 2024, month = 5, day = 10, hour = 0, minute = 0, second = 30,
                 microsecond = 0\<rparr>"
  let ?d = "\<lparr>year = 2024, month = 5, day = 9, hour = 23, minute = 59, second = 59,
                 microsecond = 500000\<rparr>"
  let ?e = "\<lparr>year = 2023, month = 5, day = 10, hour = 12, minute = 0, second = 0,
                 microsecond = 0\<rparr>"
  let ?f = "\<lparr>year = 2024, month = 11, day = 10, hour = 12, minute = 0, second = 0,
                 microsecond = 0\<rparr>"
  let ?g = "\<lparr>year = 1924, month = 5, day = 10, hour = 7, minute = 8, second = 9,
                 microsecond = 0\<rparr>"
  note ev = parse_srt_for_timestamp_def timestamp_pattern_def is_digit_def strptime_def
        int_of_digits_def digit_val_def valid_datetime_def days_in_month_def
  have p: "parse_srt_for_timestamp ''2024-05-10 00:00:30.000'' = Inr (Some ?a)"
    "parse_srt_for_timestamp ''no timestamp'' = Inr None"
    "parse_srt_for_timestamp ''2024-05-09 23:59:59.500'' = Inr (Some ?d)"
    "parse_srt_for_timestamp ''2023-05-10 12:00:00.000'' = Inr (Some ?e)"
    "parse_srt_for_timestamp ''2024-11-10 12:00:00.000'' = Inr (Some ?f)"
    "parse_srt_for_timestamp ''1924-05-10 07:08:09.000'' = Inr (Some ?g)"
    by (simp_all add: ev)
  have k: "strftime_ymd ?a = ''24-05-10''" "strftime_ymd ?d = ''24-05-09''"
    "strftime_ymd ?e = ''23-05-10''" "strftime_ymd ?f = ''24-11-10''"
    "strftime_ymd ?g = ''24-05-10''"
    by (simp_all add: strftime_ymd_def two_digits_def digit_char_def)
  have "\<exists>g. group_by_date ?fs ?rd ?vs Map.empty = Inr g"
    by (simp add: p)
  then obtain g where run: "group_by_date ?fs ?rd ?vs Map.empty = Inr g" by blast
  have dc: "dated_clips ?fs ?rd ?vs =
      [([''a.mp4''], [''a.mp4''], ?a), ([''d.mp4''], [''d.mp4''], ?d),
       ([''e.mp4''], [''e.mp4''], ?e), ([''f.mp4''], [''f.mp4''], ?f),
       ([''g.mp4''], [''g.mp4''], ?g)]"
    by (simp add: p)
  from group_by_date_own_day [OF run]
  have exact: "\<And>k. g k =
            (if filter (\<lambda>(v, srt, ts). strftime_ymd ts = k) (dated_clips ?fs ?rd ?vs) = []
             then None
             else Some (filter (\<lambda>(v, srt, ts). strftime_ymd ts = k)
                  (dated_clips ?fs ?rd ?vs)))"
    by blast
  have "g ''24-05-10'' = Some [([''a.mp4''], [''a.mp4''], ?a), ([''g.mp4''], [''g.mp4''], ?g)]"
    unfolding exact dc by (simp add: k)
  moreover have "g ''24-05-09'' = Some [([''d.mp4''], [''d.mp4''], ?d)]"
    unfolding exact dc by (simp add: k)
  moreover have "g ''23-05-10'' = Some [([''e.mp4''], [''e.mp4''], ?e)]"
    unfolding exact dc by (simp add: k)
  moreover have "g ''24-11-10'' = Some [([''f.mp4''], [''f.mp4''], ?f)]"
    unfolding exact dc by (simp add: k)
  moreover have "g ''24-05-11'' = None" "g ''2024-05-10'' = None"
    unfolding exact dc by (simp_all add: k)
  ultimately show ?thesis using run by blast
qed

section \<open>Facts about the frame aligner\<close>

lemma split_microseconds:
  fixes t :: int
  shows "(t div 86400000000 * 86400 + t mod 86400000000 div 1000000) * 1000000 +
         t mod 1000000 = t"
proof -
  define r where "r = t mod 86400000000"
  have us: "t mod 1000000 = r mod 1000000"
    unfolding r_def by (rule mod_mod_cancel [symmetric]) simp
  have "(t div 86400000000 * 86400 + r div 1000000) * 1000000 + r mod 1000000 =
        t div 86400000000 * 86400000000 + (r div 1000000 * 1000000 + r mod 1000000)"
    by (simp add: algebra_simps)
  also have "\<dots> = t div 86400000000 * 86400000000 + r" by simp
  also have "\<dots> = t" unfolding r_def by simp
  finally show ?thesis unfolding r_def [symmetric] us .
qed

lemma make_timedelta_total:
  "(days (make_timedelta d s us) * 86400 + seconds (make_timedelta d s us)) * 10 ^ 6 +
   microseconds (make_timedelta d s us) = (d * 86400 + s) * 1000000 + us"
proof -
  have e: "(10::int) ^ 6 = 1000000" by simp
  show ?thesis
    unfolding make_timedelta_def Let_def e
    by (simp only: timedelta.select_convs split_microseconds)
qed

lemma total_seconds_day:
  "total_seconds (datetime_sub ts (day_start ts)) = fl (of_int (day_microseconds ts) / 10 ^ 6)"
proof -
  have "datetime_sub ts (day_start ts) =
        make_timedelta 0 (int (second ts) + int (minute ts) * 60 + int (hour ts) * 3600)
          (int (microsecond ts))"
    by (simp add: datetime_sub_def day_start_def toordinal_def)
  then show ?thesis
    unfolding total_seconds_def
    by (simp only: make_timedelta_total) (simp add: day_microseconds_def algebra_simps)
qed

lemma compute_record_frame_alt:
  "compute_record_frame ts fps =
     (case float_of_int fps of
        Inl e \<Rightarrow> Inl e
      | Inr f \<Rightarrow> round_float (to_float (fl (of_int (day_microseconds ts) / 10 ^ 6) * f)))"
  unfolding compute_record_frame_def Let_def total_seconds_day float_mul_def by (rule refl)

lemma day_microseconds_mono:
  assumes "valid_datetime a" "valid_datetime b" "same_day a b" "datetime_le a b"
  shows "day_microseconds a \<le> day_microseconds b"
proof -
  have a: "minute a \<le> 59" "second a \<le> 59" "microsecond a \<le> 999999"
    using assms(1) by (simp_all add: valid_datetime_def)
  have "hour a < hour b \<or> (hour a = hour b \<and> (minute a < minute b \<or> (minute a = minute b \<and>
          (second a < second b \<or> (second a = second b \<and> microsecond a \<le> microsecond b)))))"
    using assms(3,4) by (auto simp: datetime_le_def same_day_def)
  then show ?thesis using a unfolding day_microseconds_def by auto
qed

lemma day_microseconds_bounds:
  assumes "valid_datetime a"
  shows "0 \<le> day_microseconds a" "day_microseconds a \<le> 86400000000"
  using assms by (simp_all add: valid_datetime_def day_microseconds_def)


lemma fl_day_end: "fl 86400 = 86400"
  by (rule fl_exactI [where e = 16 and m = "86400 * 2 ^ 36"]) simp_all

lemma fl_two_1000: "fl (2 ^ 1000) = 2 ^ 1000"
  by (rule fl_exactI [where e = 1000 and m = "2 ^ 52"]) simp_all

lemma fl_two_1017: "fl (2 ^ 1017) = 2 ^ 1017"
  by (rule fl_exactI [where e = 1017 and m = "2 ^ 52"]) simp_all

lemma fl_two_1024: "fl (2 ^ 1024) = 2 ^ 1024"
  by (rule fl_exactI [where e = 1024 and m = "2 ^ 52"]) simp_all

lemma float_of_int_too_large: "float_of_int (2 ^ 1024) = Inl OverflowError"
proof -
  have "fl (of_int (2 ^ 1024)) = 2 ^ 1024" using fl_two_1024 by simp
  then show ?thesis unfolding float_of_int_def Let_def by simp
qed

lemma record_frame_last_half_second:
  "compute_record_frame
     \<lparr>year = 2024, month = 5, day = 9, hour = 23, minute = 59, second = 59,
      microsecond = 500000\<rparr> 30 = Inr 2591985"
proof -
  have s: "fl (172799 / 2) = 172799 / 2"
    by (rule fl_exactI [where e = 16 and m = "172799 * 2 ^ 35"]) simp_all
  have p: "fl 2591985 = 2591985"
    by (rule fl_exactI [where e = 21 and m = "2591985 * 2 ^ 31"]) simp_all
  show ?thesis
    by (simp add: compute_record_frame_alt day_microseconds_def float_of_int_30 s p
        to_float_def round_float_def)
qed


section \<open>Record frame offsets\<close>

text \<open>
  C2, as stated: at 30 frames per second the clip stamped 2024-05-09 23:59:59.500 would be
  placed at frame 29985 or 29984. The code places it at neither.
\<close>

theorem record_frame_scenario_counterexample:
  "compute_record_frame
     \<lparr>year = 2024, month = 5, day = 9, hour = 23, minute = 59, second = 59,
      microsecond = 500000\<rparr> 30 \<noteq> Inr 29985 \<and>
   compute_record_frame
     \<lparr>year = 2024, month = 5, day = 9, hour = 23, minute = 59, second = 59,
      microsecond = 500000\<rparr> 30 \<noteq> Inr 29984"
  by (simp add: record_frame_last_half_second)

text \<open>
  C2, amended: the sidecar timestamp 2024-05-09 23:59:59.500 is 86399.5 seconds after
  midnight, so at 30 frames per second the record frame offset is 2591985 (the product
  is a whole number, no rounding takes place), and the clip is put in the day group
  24-05-09.
\<close>

theorem record_frame_scenario:
  "parse_srt_for_timestamp ''2024-05-09 23:59:59.500'' =
     Inr (Some \<lparr>year = 2024, month = 5, day = 9, hour = 23, minute = 59, second = 59,
                microsecond = 500000\<rparr>) \<and>
   compute_record_frame
     \<lparr>year = 2024, month = 5, day = 9, hour = 23, minute = 59, second = 59,
      microsecond = 500000\<rparr> 30 = Inr 2591985 \<and>
   strftime_ymd
     \<lparr>year = 2024, month = 5, day = 9, hour = 23, minute = 59, second = 59,
      microsecond = 500000\<rparr> = ''24-05-09'' \<and>
   group_by_date (\<lambda>v. Some [''clip.srt'']) (\<lambda>p. ''2024-05-09 23:59:59.500'')
       [[''clip.mp4'']] Map.empty =
     Inr [''24-05-09'' \<mapsto>
          [([''clip.mp4''], [''clip.srt''],
            \<lparr>year = 2024, month = 5, day = 9, hour = 23, minute = 59, second = 59,
             microsecond = 500000\<rparr>)]]"
proof -
  have parse: "parse_srt_for_timestamp ''2024-05-09 23:59:59.500'' =
     Inr (Some \<lparr>year = 2024, month = 5, day = 9, hour = 23, minute = 59, second = 59,
                microsecond = 500000\<rparr>)"
    by (simp add: parse_srt_for_timestamp_def timestamp_pattern_def is_digit_def strptime_def
        int_of_digits_def digit_val_def valid_datetime_def days_in_month_def)
  have key: "strftime_ymd
     \<lparr>year = 2024, month = 5, day = 9, hour = 23, minute = 59, second = 59,
      microsecond = 500000\<rparr> = ''24-05-09''"
    by (simp add: strftime_ymd_def two_digits_def digit_char_def)
  have grp: "group_by_date (\<lambda>v. Some [''clip.srt'']) (\<lambda>p. ''2024-05-09 23:59:59.500'')
       [[''clip.mp4'']] Map.empty =
     Inr [''24-05-09'' \<mapsto>
          [([''clip.mp4''], [''clip.srt''],
            \<lparr>year = 2024, month = 5, day = 9, hour = 23, minute = 59, second = 59,
             microsecond = 500000\<rparr>)]]"
    by (simp add: parse key setdefault_append_def)
  from parse record_frame_last_half_second key grp show ?thesis by blast
qed

text \<open>
  C5, as stated: for every frame rate above zero the result would be a non-negative
  integer. The frame rate is an unbounded integer that the code multiplies with a
  float; from \<open>2 ^ 1024\<close> on the conversion raises \<^verbatim>\<open>OverflowError\<close>.
\<close>

theorem record_frame_huge_rate_counterexample:
  "compute_record_frame
     \<lparr>year = 2024, month = 5, day = 9, hour = 0, minute = 0, second = 0,
      microsecond = 0\<rparr> (2 ^ 1024) = Inl OverflowError"
  unfolding compute_record_frame_alt float_of_int_too_large by simp

text \<open>
  C5, amended: for every frame rate above zero and all timestamps \<open>t1\<close>, \<open>t2\<close> of one
  calendar day with \<open>t1\<close> not after \<open>t2\<close>, whenever the offset of \<open>t2\<close> is computed
  the offset of \<open>t1\<close> is computed too, is not negative and is not larger; and up to
  the frame rate \<open>2 ^ 1000\<close> the offset is always computed. This is shown of the
  rounded double precision product, not of an exact one.
\<close>

theorem record_frame_monotone:
  assumes "0 < fps" "valid_datetime t1" "valid_datetime t2" "same_day t1 t2" "datetime_le t1 t2"
  shows "(\<forall>b. compute_record_frame t2 fps = Inr b \<longrightarrow>
            (\<exists>a. compute_record_frame t1 fps = Inr a \<and> 0 \<le> a \<and> a \<le> b)) \<and>
         (fps \<le> 2 ^ 1000 \<longrightarrow> (\<exists>b. compute_record_frame t2 fps = Inr b))"
proof -
  define s1 where "s1 = fl (of_int (day_microseconds t1) / 10 ^ 6)"
  define s2 where "s2 = fl (of_int (day_microseconds t2) / 10 ^ 6)"
  have us: "0 \<le> day_microseconds t1" "day_microseconds t1 \<le> day_microseconds t2"
    "day_microseconds t2 \<le> 86400000000"
    using day_microseconds_bounds [OF assms(2)] day_microseconds_bounds [OF assms(3)]
      day_microseconds_mono [OF assms(2-5)] by simp_all
  have q: "(0::rat) \<le> of_int (day_microseconds t1) / 10 ^ 6"
    "(of_int (day_microseconds t1) :: rat) / 10 ^ 6 \<le> of_int (day_microseconds t2) / 10 ^ 6"
    "(of_int (day_microseconds t2) :: rat) / 10 ^ 6 \<le> 86400"
    using us by (simp_all add: divide_le_eq)
  have s: "0 \<le> s1" "s1 \<le> s2"
    unfolding s1_def s2_def using q by (auto intro: fl_nonneg fl_mono)
  have "s2 \<le> fl 86400" unfolding s2_def using q by (intro fl_mono) (auto intro: order_trans)
  then have s2b: "s2 \<le> 86400" by (simp only: fl_day_end)
  have mono: "\<forall>b. compute_record_frame t2 fps = Inr b \<longrightarrow>
            (\<exists>a. compute_record_frame t1 fps = Inr a \<and> 0 \<le> a \<and> a \<le> b)"
  proof (intro allI impI)
    fix b
    assume r: "compute_record_frame t2 fps = Inr b"
    then obtain f where f: "float_of_int fps = Inr f"
      by (auto simp: compute_record_frame_alt split: sum.splits)
    have f0: "0 \<le> f" using float_of_int_nonneg(2) [OF _ f] assms(1) by simp
    define p1 where "p1 = fl (s1 * f)"
    define p2 where "p2 = fl (s2 * f)"
    have p: "0 \<le> p1" "p1 \<le> p2"
      unfolding p1_def p2_def using s f0
      by (auto intro!: fl_nonneg fl_mono mult_right_mono)
    from r f have fin2: "\<bar>p2\<bar> < 2 ^ 1024" and b: "b = round_half_even p2"
      by (auto simp: compute_record_frame_alt to_float_def round_float_def Let_def
          s2_def p2_def split: if_splits)
    have fin1: "\<bar>p1\<bar> < 2 ^ 1024" using p fin2 by linarith
    have a: "compute_record_frame t1 fps = Inr (round_half_even p1)"
      using f fin1
      by (simp add: compute_record_frame_alt to_float_def round_float_def Let_def
          s1_def p1_def)
    have "0 \<le> round_half_even p1" by (rule rhe_nonneg [OF p(1)])
    moreover have "round_half_even p1 \<le> b" unfolding b by (rule rhe_mono [OF p(2)])
    ultimately show "\<exists>a. compute_record_frame t1 fps = Inr a \<and> 0 \<le> a \<and> a \<le> b"
      using a by blast
  qed
  have total: "fps \<le> 2 ^ 1000 \<longrightarrow> (\<exists>b. compute_record_frame t2 fps = Inr b)"
  proof
    assume le: "fps \<le> 2 ^ 1000"
    define f where "f = fl (of_int fps)"
    have f0: "0 \<le> f" unfolding f_def using assms(1) by (intro fl_nonneg) simp
    have "(of_int fps :: rat) \<le> of_int (2 ^ 1000)" using le by (simp only: of_int_le_iff)
    then have "(of_int fps :: rat) \<le> 2 ^ 1000" by simp
    then have "f \<le> fl (2 ^ 1000)" unfolding f_def using assms(1) by (intro fl_mono) simp_all
    then have f1: "f \<le> 2 ^ 1000" by (simp only: fl_two_1000)
    have ff: "float_of_int fps = Inr f"
      using f0 f1 by (simp add: float_of_int_def Let_def flip: f_def)
    define p2 where "p2 = fl (s2 * f)"
    have "s2 * f \<le> 86400 * 2 ^ 1000"
      using s s2b f0 f1 by (intro mult_mono) simp_all
    also have "\<dots> \<le> (2::rat) ^ 1017" by simp
    finally have "p2 \<le> fl (2 ^ 1017)"
      unfolding p2_def using s f0 by (intro fl_mono) simp_all
    then have "p2 \<le> 2 ^ 1017" by (simp only: fl_two_1017)
    moreover have "0 \<le> p2" unfolding p2_def using s f0 by (intro fl_nonneg) simp
    ultimately have "\<bar>p2\<bar> < 2 ^ 1024" by simp
    then have "compute_record_frame t2 fps = Inr (round_half_even p2)"
      using ff
      by (simp add: compute_record_frame_alt to_float_def round_float_def Let_def
          s2_def p2_def)
    then show "\<exists>b. compute_record_frame t2 fps = Inr b" by blast
  qed
  from mono total show ?thesis by blast
qed

theorem record_frame_monotone_witness:
  "\<exists>a b.
     compute_record_frame
       \<lparr>year = 2024, month = 5, day = 9, hour = 8, minute = 15, second = 0,
        microsecond = 40000\<rparr> 30 = Inr a \<and>
     compute_record_frame
       \<lparr>year = 2024, month = 5, day = 9, hour = 23, minute = 59, second = 59,
        microsecond = 500000\<rparr> 30 = Inr b \<and> 0 \<le> a \<and> a \<le> b \<and> b = 2591985"
proof -
  let ?t1 = "\<lparr>year = 2024, month = 5, day = 9, hour = 8, minute = 15, second = 0,
        microsecond = 40000\<rparr>"
  let ?t2 = "\<lparr>year = 2024, month = 5, day = 9, hour = 23, minute = 59, second = 59,
        microsecond = 500000\<rparr>"
  have h: "(0::int) < 30" "valid_datetime ?t1" "valid_datetime ?t2" "same_day ?t1 ?t2"
    "datetime_le ?t1 ?t2"
    by (simp_all add: valid_datetime_def days_in_month_def same_day_def datetime_le_def)
  from record_frame_monotone [OF h]
  have "\<exists>a. compute_record_frame ?t1 30 = Inr a \<and> 0 \<le> a \<and> a \<le> 2591985"
    using record_frame_last_half_second by blast
  then show ?thesis using record_frame_last_half_second by blast
qed

section \<open>Facts about the placement loops\<close>

lemma append_loop_result:
  "append_loop append_ok infos (handed, refused) =
     (handed @ infos, refused @ filter (\<lambda>i. \<not> append_ok i) infos)"
  by (induction infos arbitrary: handed refused) simp_all

lemma build_clip_infos_acc:
  assumes "build_clip_infos get_prop read_text fps items (m0, infos0) = Inr (m, infos)"
  shows "m = foldl (\<lambda>m res. update_resolution res m) m0 (map (\<lambda>x. get_prop (fst x)) items) \<and>
         map mediaPoolItem infos = map mediaPoolItem infos0 @ map fst items"
  using assms
proof (induction items arbitrary: m0 infos0)
  case Nil
  then show ?case by simp
next
  case (Cons x items)
  obtain item v srt ts where x: "x = (item, v, srt, ts)" by (cases x) auto
  from Cons.prems obtain rf where rf: "compute_record_frame ts fps = Inr rf"
    by (auto simp: x Let_def split: sum.splits)
  from Cons.prems rf obtain dur where dur: "get_clip_duration_frames (read_text srt) fps = Inr dur"
    by (auto simp: x Let_def split: sum.splits)
  from Cons.prems have "build_clip_infos get_prop read_text fps items
      (update_resolution (get_prop item) m0,
       infos0 @ [\<lparr>mediaPoolItem = item, trackIndex = 1, recordFrame = rf,
                  trim = map_option (Pair 0) dur\<rparr>]) = Inr (m, infos)"
    by (simp add: x rf dur Let_def)
  from Cons.IH [OF this] show ?case by (simp add: x)
qed

lemma update_resolution_area:
  "update_resolution res m =
     (case parsed_resolution res of
        Some p \<Rightarrow> if area p > area m then p else m
      | None \<Rightarrow> m)"
  by (auto simp: update_resolution_def area_def split: option.splits)

lemma foldl_update_resolution:
  "foldl (\<lambda>m res. update_resolution res m) m0 props =
   foldl (\<lambda>m p. if area p > area m then p else m) m0 (List.map_filter parsed_resolution props)"
proof (induction props arbitrary: m0)
  case Nil
  show ?case by (simp add: List.map_filter_simps)
next
  case (Cons res props)
  show ?case
  proof (cases "parsed_resolution res")
    case None
    then have "update_resolution res m0 = m0" by (simp add: update_resolution_area)
    then show ?thesis using None Cons.IH [of m0] by (simp add: List.map_filter_simps)
  next
    case (Some p)
    then have "update_resolution res m0 = (if area p > area m0 then p else m0)"
      by (simp add: update_resolution_area)
    then show ?thesis using Some Cons.IH by (simp add: List.map_filter_simps)
  qed
qed

lemma largest_first:
  fixes ps :: "(nat \<times> nat) list"
  defines "r \<equiv> foldl (\<lambda>m p. if area p > area m then p else m) (0, 0) ps"
  shows "(\<forall>p\<in>set ps. area p \<le> area r) \<and> (area r = 0 \<longrightarrow> r = (0, 0)) \<and>
         (0 < area r \<longrightarrow>
            (\<exists>pre post. ps = pre @ r # post \<and> (\<forall>p\<in>set pre. area p < area r)))"
  unfolding r_def
proof (induction ps rule: rev_induct)
  case Nil
  show ?case by (simp add: area_def)
next
  case (snoc p ps)
  let ?r = "foldl (\<lambda>m p. if area p > area m then p else m) (0, 0) ps"
  show ?case
  proof (cases "area p > area ?r")
    case True
    have "ps @ [p] = ps @ p # []" by simp
    moreover have "\<forall>q\<in>set ps. area q < area p" using snoc True by auto
    ultimately show ?thesis using True snoc by (auto simp: less_imp_le)
  next
    case False
    have "0 < area ?r \<longrightarrow>
            (\<exists>pre post. ps @ [p] = pre @ ?r # post \<and> (\<forall>q\<in>set pre. area q < area ?r))"
    proof
      assume "0 < area ?r"
      with snoc obtain pre post where "ps = pre @ ?r # post" "\<forall>q\<in>set pre. area q < area ?r"
        by blast
      then have "ps @ [p] = pre @ ?r # (post @ [p])" "\<forall>q\<in>set pre. area q < area ?r"
        by simp_all
      then show "\<exists>pre post. ps @ [p] = pre @ ?r # post \<and> (\<forall>q\<in>set pre. area q < area ?r)"
        by blast
    qed
    then show ?thesis using False snoc by auto
  qed
qed


lemma fl_two: "fl 2 = 2"
  by (rule fl_exactI [where e = 1 and m = "2 ^ 52"]) simp_all

lemma fl_60: "fl 60 = 60"
  by (rule fl_exactI [where e = 5 and m = "60 * 2 ^ 47"]) simp_all

lemma record_frame_midnight:
  "compute_record_frame
     \<lparr>year = 2024, month = 5, day = 10, hour = 0, minute = 0, second = 0,
      microsecond = 0\<rparr> 30 = Inr 0"
  by (simp add: compute_record_frame_alt day_microseconds_def float_of_int_30 fl_def
      to_float_def round_float_def)

lemma record_frame_two_seconds:
  "compute_record_frame
     \<lparr>year = 2024, month = 5, day = 10, hour = 0, minute = 0, second = 2,
      microsecond = 0\<rparr> 30 = Inr 60"
  by (simp add: compute_record_frame_alt day_microseconds_def float_of_int_30 fl_two fl_60
      to_float_def round_float_def)

lemma duration_no_marker: "get_clip_duration_frames [] fps = Inr None"
  by (simp add: get_clip_duration_frames_def)

lemmas search_resolution_eval =
  match_resolution_def match_width_def match_height_def digits_then_def is_digit_def
  int_of_digits_def digit_val_def

lemma digits_then_iff:
  "(digits_then n s = Some r) =
     (\<exists>ds. s = ds @ r \<and> length ds = n \<and> list_all is_digit ds)"
proof
  assume "digits_then n s = Some r"
  then have n: "n \<le> length s" and d: "list_all is_digit (take n s)" and r: "r = drop n s"
    by (auto simp: digits_then_def split: if_splits)
  have "s = take n s @ r" by (simp add: r)
  moreover have "length (take n s) = n" using n by simp
  ultimately show "\<exists>ds. s = ds @ r \<and> length ds = n \<and> list_all is_digit ds"
    using d by blast
next
  assume "\<exists>ds. s = ds @ r \<and> length ds = n \<and> list_all is_digit ds"
  then show "digits_then n s = Some r" by (auto simp: digits_then_def)
qed

lemma digits_then_prefix:
  assumes "list_all is_digit ds" "n \<le> length ds"
  shows "digits_then n (ds @ r) \<noteq> None"
  using assms by (auto simp: digits_then_def list_all_iff dest: in_set_takeD)

lemma digits_then_stops_at_x:
  assumes "length ws < n"
  shows "digits_then n (ws @ CHR ''x'' # r) = None"
proof -
  obtain k where k: "n - length ws = Suc k" using assms by (cases "n - length ws") auto
  have "take n (ws @ CHR ''x'' # r) = ws @ CHR ''x'' # take k r"
    using assms by (simp add: k)
  moreover have "\<not> is_digit CHR ''x''" by (simp add: is_digit_def)
  ultimately show ?thesis by (simp add: digits_then_def)
qed

lemma match_height_sound:
  assumes "match_height r = Some h"
  shows "\<exists>hs post. r = hs @ post \<and> list_all is_digit hs \<and> 3 \<le> length hs \<and>
           length hs \<le> 5 \<and> h = int_of_digits hs"
proof -
  from assms obtain k where k: "k = 3 \<or> k = 4 \<or> k = 5"
    and d: "digits_then k r \<noteq> None" and h: "h = int_of_digits (take k r)"
    by (auto simp: match_height_def split: if_splits)
  from d obtain post where "digits_then k r = Some post" by blast
  then obtain ds where ds: "r = ds @ post" "length ds = k" "list_all is_digit ds"
    unfolding digits_then_iff by blast
  then have "take k r = ds" by simp
  with ds k h show ?thesis by auto
qed

lemma match_height_complete:
  assumes "list_all is_digit hs" "3 \<le> length hs"
  shows "match_height (hs @ post) \<noteq> None"
  using digits_then_prefix [OF assms(1), of 3 post] assms(2)
  by (simp add: match_height_def)

lemma match_height_exact:
  assumes "list_all is_digit hs" "3 \<le> length hs" "length hs \<le> 5"
  shows "match_height hs = Some (int_of_digits hs)"
proof -
  have "length hs = 3 \<or> length hs = 4 \<or> length hs = 5" using assms(2,3) by arith
  then show ?thesis using assms(1) by (auto simp: match_height_def digits_then_def)
qed

lemma match_width_sound:
  assumes "match_width n s = Some (w, h)"
  shows "\<exists>ws hs post. s = ws @ ''x'' @ hs @ post \<and> length ws = n \<and> list_all is_digit ws \<and>
           list_all is_digit hs \<and> 3 \<le> length hs \<and> length hs \<le> 5 \<and>
           w = int_of_digits ws \<and> h = int_of_digits hs"
proof -
  from assms obtain r where d: "digits_then n s = Some (CHR ''x'' # r)"
    and mh: "match_height r = Some h" and w: "w = int_of_digits (take n s)"
    by (auto simp: match_width_def split: option.splits list.splits if_splits)
  from d obtain ws where ws: "s = ws @ CHR ''x'' # r" "length ws = n" "list_all is_digit ws"
    unfolding digits_then_iff by blast
  from match_height_sound [OF mh] obtain hs post where
    hs: "r = hs @ post" "list_all is_digit hs" "3 \<le> length hs" "length hs \<le> 5"
    "h = int_of_digits hs" by blast
  have "take n s = ws" using ws by simp
  with ws hs w show ?thesis by auto
qed

lemma match_width_complete:
  assumes "list_all is_digit ws" "list_all is_digit hs" "3 \<le> length hs"
  shows "match_width (length ws) (ws @ ''x'' @ hs @ post) \<noteq> None"
proof -
  have "digits_then (length ws) (ws @ ''x'' @ hs @ post) = Some (CHR ''x'' # hs @ post)"
    unfolding digits_then_iff using assms(1) by auto
  then show ?thesis
    using match_height_complete [OF assms(2,3), of post] by (auto simp: match_width_def)
qed

lemma match_width_exact:
  assumes "list_all is_digit ws" "list_all is_digit hs" "3 \<le> length hs" "length hs \<le> 5"
  shows "match_width (length ws) (ws @ ''x'' @ hs) = Some (int_of_digits ws, int_of_digits hs)"
proof -
  have "digits_then (length ws) (ws @ ''x'' @ hs) = Some (CHR ''x'' # hs)"
    unfolding digits_then_iff using assms(1) by auto
  then show ?thesis
    using match_height_exact [OF assms(2-4)] by (simp add: match_width_def)
qed


lemma match_resolution_sound:
  assumes "match_resolution s = Some (w, h)"
  shows "\<exists>ws hs post. s = ws @ ''x'' @ hs @ post \<and> list_all is_digit ws \<and>
           3 \<le> length ws \<and> length ws \<le> 5 \<and> list_all is_digit hs \<and> 3 \<le> length hs \<and>
           length hs \<le> 5 \<and> w = int_of_digits ws \<and> h = int_of_digits hs"
proof -
  from assms obtain n where n: "n = 3 \<or> n = 4 \<or> n = 5" and m: "match_width n s = Some (w, h)"
    by (auto simp: match_resolution_def split: option.splits)
  from match_width_sound [OF m] n show ?thesis by fastforce
qed

lemma match_resolution_complete:
  assumes "list_all is_digit ws" "3 \<le> length ws" "length ws \<le> 5"
    "list_all is_digit hs" "3 \<le> length hs"
  shows "match_resolution (ws @ ''x'' @ hs @ post) \<noteq> None"
proof -
  have n: "length ws = 3 \<or> length ws = 4 \<or> length ws = 5" using assms(2,3) by arith
  have "match_width (length ws) (ws @ ''x'' @ hs @ post) \<noteq> None"
    by (rule match_width_complete [OF assms(1,4,5)])
  with n show ?thesis by (auto simp: match_resolution_def split: option.splits)
qed

lemma match_resolution_exact:
  assumes "list_all is_digit ws" "3 \<le> length ws" "length ws \<le> 5"
    "list_all is_digit hs" "3 \<le> length hs" "length hs \<le> 5"
  shows "match_resolution (ws @ ''x'' @ hs) = Some (int_of_digits ws, int_of_digits hs)"
proof -
  have n: "length ws = 3 \<or> length ws = 4 \<or> length ws = 5" using assms(2,3) by arith
  have w: "match_width (length ws) (ws @ ''x'' @ hs) = Some (int_of_digits ws, int_of_digits hs)"
    by (rule match_width_exact [OF assms(1,4,5,6)])
  have none: "length ws < k \<Longrightarrow> match_width k (ws @ ''x'' @ hs) = None" for k
    using digits_then_stops_at_x [of ws k hs] by (simp add: match_width_def)
  from n show ?thesis
  proof (elim disjE)
    assume l: "length ws = 3"
    then have "match_width 5 (ws @ ''x'' @ hs) = None" "match_width 4 (ws @ ''x'' @ hs) = None"
      by (intro none, simp)+
    then show ?thesis using w l by (simp add: match_resolution_def)
  next
    assume l: "length ws = 4"
    then have "match_width 5 (ws @ ''x'' @ hs) = None" by (intro none) simp
    then show ?thesis using w l by (simp add: match_resolution_def)
  next
    assume l: "length ws = 5"
    then show ?thesis using w by (simp add: match_resolution_def)
  qed
qed

lemma search_resolution_sound:
  assumes "search_resolution s = Some (w, h)"
  shows "\<exists>pre ws hs post. s = pre @ ws @ ''x'' @ hs @ post \<and> list_all is_digit ws \<and>
           3 \<le> length ws \<and> length ws \<le> 5 \<and> list_all is_digit hs \<and> 3 \<le> length hs \<and>
           length hs \<le> 5 \<and> w = int_of_digits ws \<and> h = int_of_digits hs"
  using assms
proof (induction s)
  case Nil
  then show ?case by simp
next
  case (Cons c cs)
  show ?case
  proof (cases "match_resolution (c # cs)")
    case None
    with Cons.prems have "search_resolution cs = Some (w, h)" by simp
    from Cons.IH [OF this] obtain pre ws hs post where
      "cs = pre @ ws @ ''x'' @ hs @ post" and r: "list_all is_digit ws" "3 \<le> length ws"
      "length ws \<le> 5" "list_all is_digit hs" "3 \<le> length hs" "length hs \<le> 5"
      "w = int_of_digits ws" "h = int_of_digits hs"
      by blast
    then have "c # cs = (c # pre) @ ws @ ''x'' @ hs @ post" by simp
    with r show ?thesis by blast
  next
    case (Some r)
    with Cons.prems have "match_resolution (c # cs) = Some (w, h)" by simp
    from match_resolution_sound [OF this] obtain ws hs post where
      "c # cs = [] @ ws @ ''x'' @ hs @ post" and r: "list_all is_digit ws" "3 \<le> length ws"
      "length ws \<le> 5" "list_all is_digit hs" "3 \<le> length hs" "length hs \<le> 5"
      "w = int_of_digits ws" "h = int_of_digits hs"
      by auto
    then show ?thesis by blast
  qed
qed

lemma search_resolution_complete:
  assumes "list_all is_digit ws" "3 \<le> length ws" "length ws \<le> 5"
    "list_all is_digit hs" "3 \<le> length hs"
  shows "search_resolution (pre @ ws @ ''x'' @ hs @ post) \<noteq> None"
proof (induction pre)
  case Nil
  have ne: "ws @ ''x'' @ hs @ post \<noteq> []" by simp
  then obtain c cs where s: "ws @ ''x'' @ hs @ post = c # cs"
    by (cases "ws @ ''x'' @ hs @ post") auto
  have "match_resolution (c # cs) \<noteq> None"
    using match_resolution_complete [OF assms, of post] unfolding s .
  then have "search_resolution (c # cs) \<noteq> None" by (auto split: option.splits)
  then show ?case unfolding append_Nil s .
next
  case (Cons c pre)
  then show ?case by (auto split: option.splits)
qed

lemma search_resolution_exact:
  assumes "list_all is_digit ws" "3 \<le> length ws" "length ws \<le> 5"
    "list_all is_digit hs" "3 \<le> length hs" "length hs \<le> 5"
  shows "search_resolution (ws @ ''x'' @ hs) = Some (int_of_digits ws, int_of_digits hs)"
proof -
  obtain c cs where s: "ws @ ''x'' @ hs = c # cs" by (cases "ws @ ''x'' @ hs") auto
  have "match_resolution (c # cs) = Some (int_of_digits ws, int_of_digits hs)"
    using match_resolution_exact [OF assms] unfolding s .
  then have "search_resolution (c # cs) = Some (int_of_digits ws, int_of_digits hs)" by simp
  then show ?thesis by (simp only: s)
qed

lemma parsed_resolution_source:
  assumes "parsed_resolution res = Some p"
  shows "\<exists>s. (res = ResStr s \<or> (\<exists>d. res = ResDict d \<and> d ''Resolution'' = Some (PStr s))) \<and>
             search_resolution s = Some p"
  using assms
  by (auto simp: parsed_resolution_def split: clip_prop.splits option.splits pyval.splits)

section \<open>Placement order\<close>

text \<open>
  C6: the entries handed to the host for one (camera, day) group are in ascending order
  of their record frame offset, and they are the entries built for the imported clips,
  in discovery order, rearranged so that entries of one offset keep their order.
\<close>

theorem placements_sorted_stable:
  assumes "place_clips get_prop read_text append_ok fps items = Inr (m, handed, refused)"
  shows "sorted (map recordFrame handed) \<and>
         (\<exists>clip_infos.
            build_clip_infos get_prop read_text fps items ((0, 0), []) = Inr (m, clip_infos) \<and>
            map mediaPoolItem clip_infos = map fst items \<and>
            mset handed = mset clip_infos \<and>
            (\<forall>k. filter (\<lambda>i. recordFrame i = k) handed =
                  filter (\<lambda>i. recordFrame i = k) clip_infos))"
proof -
  from assms obtain clip_infos where
    b: "build_clip_infos get_prop read_text fps items ((0, 0), []) = Inr (m, clip_infos)"
    and h: "handed = sort_key recordFrame clip_infos"
    by (auto simp: place_clips_def append_loop_result split: sum.splits)
  have "map mediaPoolItem clip_infos = map fst items"
    using build_clip_infos_acc [OF b] by simp
  moreover have "sorted (map recordFrame handed)" unfolding h by (rule sorted_sort_key)
  moreover have "mset handed = mset clip_infos" unfolding h by simp
  moreover have "\<forall>k. filter (\<lambda>i. recordFrame i = k) handed =
                  filter (\<lambda>i. recordFrame i = k) clip_infos"
    unfolding h by (simp add: sort_key_stable)
  ultimately show ?thesis using b by blast
qed

theorem placements_sorted_stable_witness:
  "place_clips (\<lambda>h. ResOther) (\<lambda>p. []) (\<lambda>i. mediaPoolItem i \<noteq> 2) 30
     [(0::nat, [''a.mp4''], [''a.srt''],
         \<lparr>year = 2024, month = 5, day = 10, hour = 0, minute = 0, second = 2,
          microsecond = 0\<rparr>),
      (1, [''b.mp4''], [''b.srt''],
         \<lparr>year = 2024, month = 5, day = 10, hour = 0, minute = 0, second = 0,
          microsecond = 0\<rparr>),
      (2, [''c.mp4''], [''c.srt''],
         \<lparr>year = 2024, month = 5, day = 10, hour = 0, minute = 0, second = 2,
          microsecond = 0\<rparr>)] =
     Inr ((0, 0),
       [\<lparr>mediaPoolItem = 1, trackIndex = 1, recordFrame = 0, trim = None\<rparr>,
        \<lparr>mediaPoolItem = 0, trackIndex = 1, recordFrame = 60, trim = None\<rparr>,
        \<lparr>mediaPoolItem = 2, trackIndex = 1, recordFrame = 60, trim = None\<rparr>],
       [\<lparr>mediaPoolItem = 2, trackIndex = 1, recordFrame = 60, trim = None\<rparr>]) \<and>
   sorted (map recordFrame
       [\<lparr>mediaPoolItem = 1::nat, trackIndex = 1, recordFrame = 0, trim = None\<rparr>,
        \<lparr>mediaPoolItem = 0, trackIndex = 1, recordFrame = 60, trim = None\<rparr>,
        \<lparr>mediaPoolItem = 2, trackIndex = 1, recordFrame = 60, trim = None\<rparr>])"
proof -
  have run: "place_clips (\<lambda>h. ResOther) (\<lambda>p. []) (\<lambda>i. mediaPoolItem i \<noteq> 2) 30
     [(0::nat, [''a.mp4''], [''a.srt''],
         \<lparr>year = 2024, month = 5, day = 10, hour = 0, minute = 0, second = 2,
          microsecond = 0\<rparr>),
      (1, [''b.mp4''], [''b.srt''],
         \<lparr>year = 2024, month = 5, day = 10, hour = 0, minute = 0, second = 0,
          microsecond = 0\<rparr>),
      (2, [''c.mp4''], [''c.srt''],
         \<lparr>year = 2024, month = 5, day = 10, hour = 0, minute = 0, second = 2,
          microsecond = 0\<rparr>)] =
     Inr ((0, 0),
       [\<lparr>mediaPoolItem = 1, trackIndex = 1, recordFrame = 0, trim = None\<rparr>,
        \<lparr>mediaPoolItem = 0, trackIndex = 1, recordFrame = 60, trim = None\<rparr>,
        \<lparr>mediaPoolItem = 2, trackIndex = 1, recordFrame = 60, trim = None\<rparr>],
       [\<lparr>mediaPoolItem = 2, trackIndex = 1, recordFrame = 60, trim = None\<rparr>])"
    by (simp add: place_clips_def record_frame_midnight record_frame_two_seconds
        duration_no_marker update_resolution_def parsed_resolution_def)
  from placements_sorted_stable [OF run] run show ?thesis by blast
qed

section \<open>Target resolution\<close>

text \<open>
  C7: among the resolutions that the clips of a group show and that match
  \<^verbatim>\<open>(\d{3,5})x(\d{3,5})\<close>, taken in discovery order, the target resolution is the
  first one whose width times height is largest: every pair before it has a strictly
  smaller product and no pair after it a larger one. A target is set exactly when some
  matching pair has a product above zero; otherwise the pair stays (0, 0). What
  matches is said without the search function: a pair that is read comes from a text
  (the property itself, or the entry \<^verbatim>\<open>Resolution\<close> of a dictionary) that holds a run
  of three to five digits, an \<^verbatim>\<open>x\<close> and a run of three to five digits, and is the two
  numbers; a text that is such a width, an \<^verbatim>\<open>x\<close> and such a height is read as these
  two numbers; a text that holds such an occurrence anywhere is read as some pair; a
  property that is missing, raises, is no text, or a dictionary without a text under
  \<^verbatim>\<open>Resolution\<close> is passed over.
\<close>

theorem target_resolution_largest_first:
  assumes "build_clip_infos get_prop read_text fps items ((0, 0), []) = Inr ((w, h), infos)"
  shows "(let ps = List.map_filter parsed_resolution (map (\<lambda>x. get_prop (fst x)) items)
          in ((\<exists>p\<in>set ps. 0 < fst p * snd p) \<longrightarrow>
               (\<exists>pre post. ps = pre @ (w, h) # post \<and>
                  (\<forall>p\<in>set pre. fst p * snd p < w * h) \<and>
                  (\<forall>p\<in>set post. fst p * snd p \<le> w * h))) \<and>
            ((\<forall>p\<in>set ps. fst p * snd p = 0) \<longrightarrow> (w, h) = (0, 0)) \<and>
            ((0 < w \<and> 0 < h) = (\<exists>p\<in>set ps. 0 < fst p * snd p))) \<and>
         (\<forall>res p. parsed_resolution res = Some p \<longrightarrow>
            (\<exists>s pre ws hs post.
               (res = ResStr s \<or> (\<exists>d. res = ResDict d \<and> d ''Resolution'' = Some (PStr s))) \<and>
               s = pre @ ws @ ''x'' @ hs @ post \<and>
               list_all is_digit ws \<and> 3 \<le> length ws \<and> length ws \<le> 5 \<and>
               list_all is_digit hs \<and> 3 \<le> length hs \<and> length hs \<le> 5 \<and>
               p = (int_of_digits ws, int_of_digits hs))) \<and>
         (\<forall>ws hs d.
            list_all is_digit ws \<and> 3 \<le> length ws \<and> length ws \<le> 5 \<and>
            list_all is_digit hs \<and> 3 \<le> length hs \<and> length hs \<le> 5 \<longrightarrow>
            parsed_resolution (ResStr (ws @ ''x'' @ hs)) =
              Some (int_of_digits ws, int_of_digits hs) \<and>
            (d ''Resolution'' = Some (PStr (ws @ ''x'' @ hs)) \<longrightarrow>
               parsed_resolution (ResDict d) = Some (int_of_digits ws, int_of_digits hs))) \<and>
         (\<forall>pre ws hs post d.
            list_all is_digit ws \<and> 3 \<le> length ws \<and> length ws \<le> 5 \<and>
            list_all is_digit hs \<and> 3 \<le> length hs \<and> length hs \<le> 5 \<longrightarrow>
            parsed_resolution (ResStr (pre @ ws @ ''x'' @ hs @ post)) \<noteq> None \<and>
            (d ''Resolution'' = Some (PStr (pre @ ws @ ''x'' @ hs @ post)) \<longrightarrow>
               parsed_resolution (ResDict d) \<noteq> None)) \<and>
         parsed_resolution ResOther = None \<and> parsed_resolution ResRaises = None \<and>
         (\<forall>d. d ''Resolution'' = None \<or> d ''Resolution'' = Some POther \<longrightarrow>
            parsed_resolution (ResDict d) = None)"
proof -
  define ps where "ps = List.map_filter parsed_resolution (map (\<lambda>x. get_prop (fst x)) items)"
  have r: "(w, h) = foldl (\<lambda>m p. if area p > area m then p else m) (0, 0) ps"
    using build_clip_infos_acc [OF assms] by (simp add: foldl_update_resolution ps_def)
  note lf = largest_first [of ps, folded r]
  have all: "\<forall>p\<in>set ps. area p \<le> w * h" using lf by (simp add: area_def)
  have zero: "w * h = 0 \<longrightarrow> (w, h) = (0, 0)" using lf by (simp add: area_def)
  have pos: "0 < w * h \<longrightarrow>
      (\<exists>pre post. ps = pre @ (w, h) # post \<and> (\<forall>p\<in>set pre. area p < w * h))"
    using lf by (simp add: area_def)
  have some: "(\<exists>p\<in>set ps. 0 < area p) \<longrightarrow> 0 < w * h"
  proof
    assume "\<exists>p\<in>set ps. 0 < area p"
    then obtain p where p: "p \<in> set ps" "0 < area p" by blast
    with all have "area p \<le> w * h" by blast
    with p(2) show "0 < w * h" by (rule less_le_trans)
  qed
  have first: "(\<exists>p\<in>set ps. 0 < area p) \<longrightarrow>
               (\<exists>pre post. ps = pre @ (w, h) # post \<and>
                  (\<forall>p\<in>set pre. area p < w * h) \<and>
                  (\<forall>p\<in>set post. area p \<le> w * h))"
  proof
    assume "\<exists>p\<in>set ps. 0 < area p"
    with some pos obtain pre post where
      pp: "ps = pre @ (w, h) # post" "\<forall>p\<in>set pre. area p < w * h"
      by blast
    have "\<forall>p\<in>set post. area p \<le> w * h" using all pp(1) by simp
    with pp show "\<exists>pre post. ps = pre @ (w, h) # post \<and>
                  (\<forall>p\<in>set pre. area p < w * h) \<and>
                  (\<forall>p\<in>set post. area p \<le> w * h)"
      by blast
  qed
  have none: "(\<forall>p\<in>set ps. area p = 0) \<longrightarrow> (w, h) = (0, 0)"
  proof
    assume z: "\<forall>p\<in>set ps. area p = 0"
    show "(w, h) = (0, 0)"
    proof (cases "0 < w * h")
      case True
      with pos obtain pre post where "ps = pre @ (w, h) # post" by blast
      then have "(w, h) \<in> set ps" by simp
      with z have "area (w, h) = 0" by blast
      with True show ?thesis by (simp add: area_def)
    next
      case False
      then have "w * h = 0" by simp
      with zero show ?thesis by blast
    qed
  qed
  have iff: "(0 < w \<and> 0 < h) = (\<exists>p\<in>set ps. 0 < area p)"
  proof
    assume "0 < w \<and> 0 < h"
    then have "0 < w * h" by simp
    with pos obtain pre post where "ps = pre @ (w, h) # post" by blast
    then have "(w, h) \<in> set ps" by simp
    moreover have "0 < area (w, h)" using \<open>0 < w * h\<close> by (simp add: area_def)
    ultimately show "\<exists>p\<in>set ps. 0 < area p" by blast
  next
    assume "\<exists>p\<in>set ps. 0 < area p"
    with some have "0 < w * h" by blast
    then show "0 < w \<and> 0 < h" by simp
  qed
  from first none iff
  have old: "let ps = List.map_filter parsed_resolution (map (\<lambda>x. get_prop (fst x)) items)
          in ((\<exists>p\<in>set ps. 0 < fst p * snd p) \<longrightarrow>
               (\<exists>pre post. ps = pre @ (w, h) # post \<and>
                  (\<forall>p\<in>set pre. fst p * snd p < w * h) \<and>
                  (\<forall>p\<in>set post. fst p * snd p \<le> w * h))) \<and>
            ((\<forall>p\<in>set ps. fst p * snd p = 0) \<longrightarrow> (w, h) = (0, 0)) \<and>
            ((0 < w \<and> 0 < h) = (\<exists>p\<in>set ps. 0 < fst p * snd p))"
    unfolding Let_def ps_def [symmetric] area_def by blast
  have sound: "\<forall>res p. parsed_resolution res = Some p \<longrightarrow>
            (\<exists>s pre ws hs post.
               (res = ResStr s \<or> (\<exists>d. res = ResDict d \<and> d ''Resolution'' = Some (PStr s))) \<and>
               s = pre @ ws @ ''x'' @ hs @ post \<and>
               list_all is_digit ws \<and> 3 \<le> length ws \<and> length ws \<le> 5 \<and>
               list_all is_digit hs \<and> 3 \<le> length hs \<and> length hs \<le> 5 \<and>
               p = (int_of_digits ws, int_of_digits hs))"
  proof (intro allI impI)
    fix res p
    assume "parsed_resolution res = Some p"
    from parsed_resolution_source [OF this] obtain s where
      src: "res = ResStr s \<or> (\<exists>d. res = ResDict d \<and> d ''Resolution'' = Some (PStr s))"
      and sr: "search_resolution s = Some p" by blast
    obtain pw ph where p: "p = (pw, ph)" by (cases p)
    from search_resolution_sound [OF sr [unfolded p]] obtain pre ws hs post where
      "s = pre @ ws @ ''x'' @ hs @ post" "list_all is_digit ws" "3 \<le> length ws"
      "length ws \<le> 5" "list_all is_digit hs" "3 \<le> length hs" "length hs \<le> 5"
      "pw = int_of_digits ws" "ph = int_of_digits hs"
      by blast
    with src p show "\<exists>s pre ws hs post.
               (res = ResStr s \<or> (\<exists>d. res = ResDict d \<and> d ''Resolution'' = Some (PStr s))) \<and>
               s = pre @ ws @ ''x'' @ hs @ post \<and>
               list_all is_digit ws \<and> 3 \<le> length ws \<and> length ws \<le> 5 \<and>
               list_all is_digit hs \<and> 3 \<le> length hs \<and> length hs \<le> 5 \<and>
               p = (int_of_digits ws, int_of_digits hs)"
      by blast
  qed
  have str: "parsed_resolution (ResStr s) = search_resolution s" for s
    by (simp add: parsed_resolution_def)
  have dict: "d ''Resolution'' = Some (PStr s) \<Longrightarrow>
      parsed_resolution (ResDict d) = search_resolution s" for d s
    by (simp add: parsed_resolution_def)
  have exact: "\<forall>ws hs d.
            list_all is_digit ws \<and> 3 \<le> length ws \<and> length ws \<le> 5 \<and>
            list_all is_digit hs \<and> 3 \<le> length hs \<and> length hs \<le> 5 \<longrightarrow>
            parsed_resolution (ResStr (ws @ ''x'' @ hs)) =
              Some (int_of_digits ws, int_of_digits hs) \<and>
            (d ''Resolution'' = Some (PStr (ws @ ''x'' @ hs)) \<longrightarrow>
               parsed_resolution (ResDict d) = Some (int_of_digits ws, int_of_digits hs))"
    using search_resolution_exact by (simp only: str) (metis dict)
  have complete: "\<forall>pre ws hs post d.
            list_all is_digit ws \<and> 3 \<le> length ws \<and> length ws \<le> 5 \<and>
            list_all is_digit hs \<and> 3 \<le> length hs \<and> length hs \<le> 5 \<longrightarrow>
            parsed_resolution (ResStr (pre @ ws @ ''x'' @ hs @ post)) \<noteq> None \<and>
            (d ''Resolution'' = Some (PStr (pre @ ws @ ''x'' @ hs @ post)) \<longrightarrow>
               parsed_resolution (ResDict d) \<noteq> None)"
    using search_resolution_complete by (simp only: str) (metis dict)
  have other: "parsed_resolution ResOther = None" "parsed_resolution ResRaises = None"
    "\<forall>d. d ''Resolution'' = None \<or> d ''Resolution'' = Some POther \<longrightarrow>
            parsed_resolution (ResDict d) = None"
    by (auto simp: parsed_resolution_def)
  from old sound exact complete other show ?thesis by blast
qed

theorem target_resolution_largest_first_witness:
  "\<exists>infos pre post.
     build_clip_infos
       (\<lambda>h::nat. if h = 0 then ResStr ''1920x1080''
                 else if h = 2 then ResStr ''3840x2160''
                 else if h = 3 then ResDict [''Resolution'' \<mapsto> PStr ''2160x3840'']
                 else if h = 4 then ResStr ''1280x720''
                 else if h = 5 then ResStr ''unknown''
                 else if h = 6 then ResStr ''Resolution: 640x480 px''
                 else if h = 7 then ResStr ''12345x123''
                 else if h = 8 then ResStr ''99x1080''
                 else if h = 9 then ResStr ''1234567x108''
                 else if h = 10 then ResStr ''100x1234567''
                 else if h = 11 then ResOther
                 else if h = 12 then ResDict [''Resolution'' \<mapsto> POther]
                 else if h = 13 then ResDict [''Size'' \<mapsto> PStr ''7680x4320'']
                 else ResRaises)
       (\<lambda>p. []) 30
       (map (\<lambda>h::nat. (h, [''v''], [''s''],
                   \<lparr>year = 2024, month = 5, day = 10, hour = 0, minute = 0, second = 0,
                    microsecond = 0\<rparr>)) [0, 2, 3, 4, 5, 6, 7, 8, 9, 10, 11, 12, 13, 14])
       ((0, 0), []) = Inr ((3840, 2160), infos) \<and>
     List.map_filter parsed_resolution
       (map (\<lambda>x. (\<lambda>h::nat. if h = 0 then ResStr ''1920x1080''
                 else if h = 2 then ResStr ''3840x2160''
                 else if h = 3 then ResDict [''Resolution'' \<mapsto> PStr ''2160x3840'']
                 else if h = 4 then ResStr ''1280x720''
                 else if h = 5 then ResStr ''unknown''
                 else if h = 6 then ResStr ''Resolution: 640x480 px''
                 else if h = 7 then ResStr ''12345x123''
                 else if h = 8 then ResStr ''99x1080''
                 else if h = 9 then ResStr ''1234567x108''
                 else if h = 10 then ResStr ''100x1234567''
                 else if h = 11 then ResOther
                 else if h = 12 then ResDict [''Resolution'' \<mapsto> POther]
                 else if h = 13 then ResDict [''Size'' \<mapsto> PStr ''7680x4320'']
                 else ResRaises) (fst x))
         (map (\<lambda>h::nat. (h, [''v''], [''s''],
                   \<lparr>year = 2024, month = 5, day = 10, hour = 0, minute = 0, second = 0,
                    microsecond = 0\<rparr>)) [0, 2, 3, 4, 5, 6, 7, 8, 9, 10, 11, 12, 13, 14])) =
       [(1920::nat, 1080::nat), (3840, 2160), (2160, 3840), (1280, 720), (640, 480),
        (12345, 123), (34567, 108), (100, 12345)] \<and>
     [(1920::nat, 1080::nat), (3840, 2160), (2160, 3840), (1280, 720), (640, 480),
        (12345, 123), (34567, 108), (100, 12345)] =
       pre @ (3840, 2160) # post \<and>
     (\<forall>p\<in>set pre. fst p * snd p < 3840 * 2160) \<and>
     (\<forall>p\<in>set post. fst p * snd p \<le> 3840 * 2160)"
proof -
  let ?gp = "\<lambda>h::nat. if h = 0 then ResStr ''1920x1080''
                 else if h = 2 then ResStr ''3840x2160''
                 else if h = 3 then ResDict [''Resolution'' \<mapsto> PStr ''2160x3840'']
                 else if h = 4 then ResStr ''1280x720''
                 else if h = 5 then ResStr ''unknown''
                 else if h = 6 then ResStr ''Resolution: 640x480 px''
                 else if h = 7 then ResStr ''12345x123''
                 else if h = 8 then ResStr ''99x1080''
                 else if h = 9 then ResStr ''1234567x108''
                 else if h = 10 then ResStr ''100x1234567''
                 else if h = 11 then ResOther
                 else if h = 12 then ResDict [''Resolution'' \<mapsto> POther]
                 else if h = 13 then ResDict [''Size'' \<mapsto> PStr ''7680x4320'']
                 else ResRaises"
  let ?items = "map (\<lambda>h::nat. (h, [''v''], [''s''],
                   \<lparr>year = 2024, month = 5, day = 10, hour = 0, minute = 0, second = 0,
                    microsecond = 0\<rparr>)) [0, 2, 3, 4, 5, 6, 7, 8, 9, 10, 11, 12, 13, 14]"
  have r: "parsed_resolution (ResStr ''1920x1080'') = Some (1920, 1080)"
    "parsed_resolution (ResStr ''3840x2160'') = Some (3840, 2160)"
    "parsed_resolution (ResDict [''Resolution'' \<mapsto> PStr ''2160x3840'']) = Some (2160, 3840)"
    "parsed_resolution (ResStr ''1280x720'') = Some (1280, 720)"
    "parsed_resolution (ResStr ''unknown'') = None"
    "parsed_resolution (ResStr ''Resolution: 640x480 px'') = Some (640, 480)"
    "parsed_resolution (ResStr ''12345x123'') = Some (12345, 123)"
    "parsed_resolution (ResStr ''99x1080'') = None"
    "parsed_resolution (ResStr ''1234567x108'') = Some (34567, 108)"
    "parsed_resolution (ResStr ''100x1234567'') = Some (100, 12345)"
    "parsed_resolution ResOther = None"
    "parsed_resolution (ResDict [''Resolution'' \<mapsto> POther]) = None"
    "parsed_resolution (ResDict [''Size'' \<mapsto> PStr ''7680x4320'']) = None"
    "parsed_resolution ResRaises = None"
    by (simp_all add: parsed_resolution_def search_resolution_eval)
  have ps: "List.map_filter parsed_resolution (map (\<lambda>x. ?gp (fst x)) ?items) =
      [(1920::nat, 1080::nat), (3840, 2160), (2160, 3840), (1280, 720), (640, 480),
        (12345, 123), (34567, 108), (100, 12345)]"
    by (simp add: List.map_filter_simps r)
  have "\<exists>infos. build_clip_infos ?gp (\<lambda>p. []) 30 ?items ((0, 0), []) =
      Inr ((3840, 2160), infos)"
    by (simp add: record_frame_midnight duration_no_marker update_resolution_def r)
  then obtain infos where
    run: "build_clip_infos ?gp (\<lambda>p. []) 30 ?items ((0, 0), []) = Inr ((3840, 2160), infos)"
    by blast
  have pos: "\<exists>p\<in>set [(1920::nat, 1080::nat), (3840, 2160), (2160, 3840), (1280, 720), (640, 480),
        (12345, 123), (34567, 108), (100, 12345)].
          0 < fst p * snd p"
    by simp
  from target_resolution_largest_first [OF run]
  have "(\<exists>p\<in>set [(1920::nat, 1080::nat), (3840, 2160), (2160, 3840), (1280, 720), (640, 480),
        (12345, 123), (34567, 108), (100, 12345)]. 0 < fst p * snd p) \<longrightarrow>
      (\<exists>pre post. [(1920::nat, 1080::nat), (3840, 2160), (2160, 3840), (1280, 720), (640, 480),
        (12345, 123), (34567, 108), (100, 12345)] =
          pre @ (3840, 2160) # post \<and>
        (\<forall>p\<in>set pre. fst p * snd p < 3840 * 2160) \<and>
        (\<forall>p\<in>set post. fst p * snd p \<le> 3840 * 2160))"
    unfolding Let_def ps by (elim conjE)
  with pos obtain pre post where
    "[(1920::nat, 1080::nat), (3840, 2160), (2160, 3840), (1280, 720), (640, 480),
        (12345, 123), (34567, 108), (100, 12345)] =
       pre @ (3840, 2160) # post"
    "\<forall>p\<in>set pre. fst p * snd p < 3840 * 2160"
    "\<forall>p\<in>set post. fst p * snd p \<le> 3840 * 2160"
    by blast
  with run ps show ?thesis by blast
qed

section \<open>Fatal configuration\<close>




section \<open>Properties of the export file name\<close>

text \<open>
  C8, as stated: the plan name \<^verbatim>\<open>Shoot_CAM A*:1_24-05-10\<close> would be exported as
  \<^verbatim>\<open>Shoot_CAM A_1_24-05-10.xml\<close>. The code replaces the asterisk and the colon
  separately, so the exported name has two underscores there and differs from the
  stated one.
\<close>

theorem safe_filename_example_counterexample:
  "xml_name ''Shoot_CAM A*:1_24-05-10'' \<noteq> ''Shoot_CAM A_1_24-05-10.xml''"
  by (simp add: xml_name_def safe_filename_def forbidden_chars_def)

text \<open>
  C8, amended: sanitization keeps the length of the name and works position by
  position: a backslash (code 0x5C), a slash, a colon, an asterisk, a question mark, a
  double quote (code 0x22), a less-than sign, a greater-than sign and a vertical bar
  become an underscore each, and every other character is kept. The exported file is
  the sanitized name followed by \<^verbatim>\<open>.xml\<close>, so the plan
  \<^verbatim>\<open>Shoot_CAM A*:1_24-05-10\<close> is exported as \<^verbatim>\<open>Shoot_CAM A__1_24-05-10.xml\<close>, and a
  name that holds all nine characters loses all of them.
\<close>

theorem safe_filename_replaces_each:
  "length (safe_filename name) = length name \<and>
   (\<forall>i<length name.
      safe_filename name ! i =
        (if name ! i = CHR 0x5C \<or> name ! i = CHR ''/'' \<or> name ! i = CHR '':'' \<or>
            name ! i = CHR ''*'' \<or> name ! i = CHR ''?'' \<or> name ! i = CHR 0x22 \<or>
            name ! i = CHR ''<'' \<or> name ! i = CHR ''>'' \<or> name ! i = CHR ''|''
         then CHR ''_'' else name ! i)) \<and>
   xml_name name = safe_filename name @ ''.xml'' \<and>
   xml_name ''Shoot_CAM A*:1_24-05-10'' = ''Shoot_CAM A__1_24-05-10.xml'' \<and>
   safe_filename
     [CHR ''a'', CHR 0x5C, CHR ''b'', CHR ''/'', CHR ''c'', CHR '':'', CHR ''d'', CHR ''*'',
      CHR ''e'', CHR ''?'', CHR ''f'', CHR 0x22, CHR ''g'', CHR ''<'', CHR ''h'', CHR ''>'',
      CHR ''i'', CHR ''|'', CHR ''j'', CHR ''-'', CHR ''.'', CHR '' '', CHR ''_''] =
     ''a_b_c_d_e_f_g_h_i_j-. _''"
proof -
  have len: "length (safe_filename name) = length name"
    by (simp add: safe_filename_def)
  have nth: "\<forall>i<length name.
      safe_filename name ! i =
        (if name ! i = CHR 0x5C \<or> name ! i = CHR ''/'' \<or> name ! i = CHR '':'' \<or>
            name ! i = CHR ''*'' \<or> name ! i = CHR ''?'' \<or> name ! i = CHR 0x22 \<or>
            name ! i = CHR ''<'' \<or> name ! i = CHR ''>'' \<or> name ! i = CHR ''|''
         then CHR ''_'' else name ! i)"
    by (simp add: safe_filename_def forbidden_chars_def)
  have xml: "xml_name name = safe_filename name @ ''.xml''"
    by (simp add: xml_name_def)
  have ex: "xml_name ''Shoot_CAM A*:1_24-05-10'' = ''Shoot_CAM A__1_24-05-10.xml''"
    by (simp add: xml_name_def safe_filename_def forbidden_chars_def)
  have nine: "safe_filename
     [CHR ''a'', CHR 0x5C, CHR ''b'', CHR ''/'', CHR ''c'', CHR '':'', CHR ''d'', CHR ''*'',
      CHR ''e'', CHR ''?'', CHR ''f'', CHR 0x22, CHR ''g'', CHR ''<'', CHR ''h'', CHR ''>'',
      CHR ''i'', CHR ''|'', CHR ''j'', CHR ''-'', CHR ''.'', CHR '' '', CHR ''_''] =
     ''a_b_c_d_e_f_g_h_i_j-. _''"
    by (simp add: safe_filename_def forbidden_chars_def)
  from len nth xml ex nine show ?thesis by blast
qed

theorem safe_filename_replaces_each_witness:
  "length (safe_filename [CHR 0x5C, CHR ''/'', CHR '':'', CHR ''*'', CHR ''?'', CHR 0x22,
      CHR ''<'', CHR ''>'', CHR ''|'', CHR ''k'']) = 10 \<and>
   safe_filename [CHR 0x5C, CHR ''/'', CHR '':'', CHR ''*'', CHR ''?'', CHR 0x22,
      CHR ''<'', CHR ''>'', CHR ''|'', CHR ''k''] ! 0 = CHR ''_'' \<and>
   safe_filename [CHR 0x5C, CHR ''/'', CHR '':'', CHR ''*'', CHR ''?'', CHR 0x22,
      CHR ''<'', CHR ''>'', CHR ''|'', CHR ''k''] ! 2 = CHR ''_'' \<and>
   safe_filename [CHR 0x5C, CHR ''/'', CHR '':'', CHR ''*'', CHR ''?'', CHR 0x22,
      CHR ''<'', CHR ''>'', CHR ''|'', CHR ''k''] ! 3 = CHR ''_'' \<and>
   safe_filename [CHR 0x5C, CHR ''/'', CHR '':'', CHR ''*'', CHR ''?'', CHR 0x22,
      CHR ''<'', CHR ''>'', CHR ''|'', CHR ''k''] ! 4 = CHR ''_'' \<and>
   safe_filename [CHR 0x5C, CHR ''/'', CHR '':'', CHR ''*'', CHR ''?'', CHR 0x22,
      CHR ''<'', CHR ''>'', CHR ''|'', CHR ''k''] ! 5 = CHR ''_'' \<and>
   safe_filename [CHR 0x5C, CHR ''/'', CHR '':'', CHR ''*'', CHR ''?'', CHR 0x22,
      CHR ''<'', CHR ''>'', CHR ''|'', CHR ''k''] ! 6 = CHR ''_'' \<and>
   safe_filename [CHR 0x5C, CHR ''/'', CHR '':'', CHR ''*'', CHR ''?'', CHR 0x22,
      CHR ''<'', CHR ''>'', CHR ''|'', CHR ''k''] ! 7 = CHR ''_'' \<and>
   safe_filename [CHR 0x5C, CHR ''/'', CHR '':'', CHR ''*'', CHR ''?'', CHR 0x22,
      CHR ''<'', CHR ''>'', CHR ''|'', CHR ''k''] ! 8 = CHR ''_'' \<and>
   safe_filename [CHR 0x5C, CHR ''/'', CHR '':'', CHR ''*'', CHR ''?'', CHR 0x22,
      CHR ''<'', CHR ''>'', CHR ''|'', CHR ''k''] ! 9 = CHR ''k'' \<and>
   xml_name [CHR 0x5C, CHR ''/'', CHR '':'', CHR ''*'', CHR ''?'', CHR 0x22,
      CHR ''<'', CHR ''>'', CHR ''|'', CHR ''k''] = ''_________k.xml''"
proof -
  let ?n = "[CHR 0x5C, CHR ''/'', CHR '':'', CHR ''*'', CHR ''?'', CHR 0x22,
      CHR ''<'', CHR ''>'', CHR ''|'', CHR ''k'']"
  note t = safe_filename_replaces_each [of ?n]
  have len: "length (safe_filename ?n) = 10" using t by simp
  have nth: "\<And>i. i < 10 \<Longrightarrow> safe_filename ?n ! i =
        (if ?n ! i = CHR 0x5C \<or> ?n ! i = CHR ''/'' \<or> ?n ! i = CHR '':'' \<or>
            ?n ! i = CHR ''*'' \<or> ?n ! i = CHR ''?'' \<or> ?n ! i = CHR 0x22 \<or>
            ?n ! i = CHR ''<'' \<or> ?n ! i = CHR ''>'' \<or> ?n ! i = CHR ''|''
         then CHR ''_'' else ?n ! i)"
    using t by simp
  have c: "safe_filename ?n ! 0 = CHR ''_''" "safe_filename ?n ! 2 = CHR ''_''"
    "safe_filename ?n ! 3 = CHR ''_''" "safe_filename ?n ! 4 = CHR ''_''"
    "safe_filename ?n ! 5 = CHR ''_''" "safe_filename ?n ! 6 = CHR ''_''"
    "safe_filename ?n ! 7 = CHR ''_''" "safe_filename ?n ! 8 = CHR ''_''"
    "safe_filename ?n ! 9 = CHR ''k''"
    by (simp_all add: nth)
  have "safe_filename ?n = ''_________k''"
    by (simp add: safe_filename_def forbidden_chars_def)
  then have "xml_name ?n = ''_________k.xml''" using t by simp
  with len c show ?thesis by blast
qed

end
